theory Spec2Isabelle
  imports Main "HOL-Library.AList" "HOL-Library.Multiset"
begin

section \<open>The worker pool of apps/api/src/workers/pool.ts\<close>

text \<open>
  The pool is a single-threaded event-driven object: every handler (a call of
  \<open>execute\<close>, a worker's message, error or exit event, a task timer, the cleanup
  interval, a stage of \<open>shutdown\<close>) runs to completion before the next one starts.
  Each handler is a function from pool state to pool state.  Values the handlers
  read from the outside are parameters: \<open>now\<close> is the reading of \<open>Date.now()\<close>,
  \<open>ids n\<close> is the value of \<open>Date.now() + Math.random()\<close> drawn by the \<open>n\<close>-th call of
  \<open>spawnWorker\<close>, and the task id string built in \<open>execute\<close> is handed in by the caller
  of the model.  Nothing is assumed about these values; in particular two workers or two
  tasks may draw the same id.  Worker counts (\<open>minWorkers\<close>, \<open>maxWorkers\<close>) are natural
  numbers, priorities and durations are integers.

  \<open>WorkerInfo\<close> objects are shared by reference between the \<open>workers\<close> map and the
  closures of the timers and event handlers, so they live in a store (\<open>heap\<close>) and the map
  holds addresses.  Calls that leave the pool (\<open>resolve\<close>/\<open>reject\<close> of a task's promise,
  \<open>postMessage\<close>, \<open>setTimeout\<close>, \<open>terminate\<close>) are recorded in the state in call order.
\<close>

type_synonym worker_id = nat
type_synonym addr = nat
type_synonym payload = string
type_synonym future = nat

datatype js_error = Error string

datatype outcome = Resolved "payload option" | Rejected js_error

record WorkerTask =
  task_id :: string
  task_type :: string
  task_data :: payload
  task_future :: future
  task_timeout :: "int option"
  task_priority :: "int option"

record WorkerInfo =
  busy :: bool
  currentTask :: "string option"
  tasksCompleted :: nat
  errors :: nat
  lastActivity :: int

record WorkerMessage =
  msg_taskId :: string
  msg_type :: string
  msg_data :: payload

record WorkerResult =
  res_taskId :: string
  res_success :: bool
  res_data :: "payload option"
  res_error :: "string option"

record PoolOptions =
  opt_workerScript :: string
  opt_maxWorkers :: "nat option"
  opt_minWorkers :: "nat option"
  opt_idleTimeout :: "int option"
  opt_taskTimeout :: "int option"

record ExecuteOptions =
  opt_timeout :: "int option"
  opt_priority :: "int option"

record PoolStats =
  totalWorkers :: nat
  busyWorkers :: nat
  idleWorkers :: nat
  queuedTasks :: nat
  totalTasksCompleted :: nat
  totalErrors :: nat

record WorkerPool =
  workers :: "(worker_id \<times> addr) list"
  taskQueue :: "WorkerTask list"
  workerScript :: string
  maxWorkers :: nat
  minWorkers :: nat
  idleTimeout :: int
  taskTimeout :: int
  isShuttingDown :: bool
  heap :: "addr \<Rightarrow> WorkerInfo"
  nextAddr :: nat
  nextFuture :: nat
  settled :: "(future \<times> outcome) list"
  posted :: "(addr \<times> WorkerMessage) list"
  timers :: "(addr \<times> WorkerTask \<times> int) list"
  terminated :: "addr list"

subsection \<open>JavaScript helpers\<close>

text \<open>\<open>x || d\<close> on an optional number: \<open>undefined\<close> and \<open>0\<close> are falsy.\<close>

definition num_or :: "'a::zero option \<Rightarrow> 'a \<Rightarrow> 'a" where
  "num_or x d = (case x of None \<Rightarrow> d | Some v \<Rightarrow> if v = 0 then d else v)"

text \<open>\<open>x || d\<close> on an optional string: \<open>undefined\<close> and the empty string are falsy.\<close>

definition str_or :: "string option \<Rightarrow> string \<Rightarrow> string" where
  "str_or x d = (case x of None \<Rightarrow> d | Some v \<Rightarrow> if v = [] then d else v)"

text \<open>\<open>Array.prototype.findIndex\<close>; \<open>None\<close> stands for \<open>-1\<close>.\<close>

fun findIndex :: "('a \<Rightarrow> bool) \<Rightarrow> 'a list \<Rightarrow> nat option" where
  "findIndex P [] = None"
| "findIndex P (x # xs) = (if P x then Some 0 else map_option Suc (findIndex P xs))"

text \<open>\<open>xs.splice(i, 1)\<close>: the array without its \<open>i\<close>-th element.\<close>

definition splice1 :: "nat \<Rightarrow> 'a list \<Rightarrow> 'a list" where
  "splice1 i xs = take i xs @ drop (Suc i) xs"

text \<open>The priority the comparator of \<open>processQueue\<close> reads: \<open>t.priority || 0\<close>.\<close>

definition prio :: "WorkerTask \<Rightarrow> int" where
  "prio t = num_or (task_priority t) 0"

subsection \<open>Spawning\<close>

text \<open>
  \<open>spawnWorker\<close> allocates a fresh \<open>WorkerInfo\<close>, registers the handlers (the events of
  section Events) and stores the object under its id.  \<open>Map.set\<close> on a key already present
  replaces the value in place, otherwise appends: \<open>AList.update\<close>.
\<close>

definition spawnWorker :: "(nat \<Rightarrow> worker_id) \<Rightarrow> int \<Rightarrow> WorkerPool \<Rightarrow> worker_id \<times> WorkerPool" where
  "spawnWorker ids now s =
     (let a = nextAddr s;
          workerId = ids a;
          workerInfo = \<lparr>busy = False, currentTask = None, tasksCompleted = 0, errors = 0,
                        lastActivity = now\<rparr>
      in (workerId,
          s\<lparr>heap := (heap s)(a := workerInfo),
            nextAddr := Suc a,
            workers := AList.update workerId a (workers s)\<rparr>))"

fun spawn_loop :: "(nat \<Rightarrow> worker_id) \<Rightarrow> int \<Rightarrow> nat \<Rightarrow> WorkerPool \<Rightarrow> WorkerPool" where
  "spawn_loop ids now 0 s = s"
| "spawn_loop ids now (Suc n) s = spawn_loop ids now n (snd (spawnWorker ids now s))"

text \<open>
  The constructor; \<open>cpus\<close> is \<open>cpus().length\<close>.  Its \<open>setInterval\<close> is the source of the
  \<open>CleanupTick\<close> events below.
\<close>

definition constructor :: "nat \<Rightarrow> PoolOptions \<Rightarrow> (nat \<Rightarrow> worker_id) \<Rightarrow> int \<Rightarrow> WorkerPool" where
  "constructor cpus options ids now =
     (let s0 = \<lparr>workers = [], taskQueue = [],
                workerScript = opt_workerScript options,
                maxWorkers = num_or (opt_maxWorkers options) cpus,
                minWorkers = num_or (opt_minWorkers options) (max 1 (cpus div 2)),
                idleTimeout = num_or (opt_idleTimeout options) 30000,
                taskTimeout = num_or (opt_taskTimeout options) 60000,
                isShuttingDown = False,
                heap = (\<lambda>_. \<lparr>busy = False, currentTask = None, tasksCompleted = 0,
                                 errors = 0, lastActivity = 0\<rparr>),
                nextAddr = 0, nextFuture = 0, settled = [], posted = [], timers = [],
                terminated = []\<rparr>
      in spawn_loop ids now (minWorkers s0) s0)"

subsection \<open>Dispatch\<close>

definition getAvailableWorker :: "WorkerPool \<Rightarrow> addr option" where
  "getAvailableWorker s = map_option snd (find (\<lambda>p. \<not> busy (heap s (snd p))) (workers s))"

definition assigned :: "WorkerPool \<Rightarrow> WorkerTask \<Rightarrow> bool" where
  "assigned s t = list_ex (\<lambda>p. currentTask (heap s (snd p)) = Some (task_id t)) (workers s)"

definition message_of :: "WorkerTask \<Rightarrow> WorkerMessage" where
  "message_of task = \<lparr>msg_taskId = task_id task, msg_type = task_type task,
                       msg_data = task_data task\<rparr>"

definition assignTask :: "addr \<Rightarrow> WorkerTask \<Rightarrow> int \<Rightarrow> WorkerPool \<Rightarrow> WorkerPool" where
  "assignTask a task now s =
     s\<lparr>heap := (heap s)(a := (heap s a)\<lparr>busy := True, currentTask := Some (task_id task),
                                         lastActivity := now\<rparr>),
       posted := posted s @ [(a, message_of task)],
       timers := timers s @ [(a, task, num_or (task_timeout task) (taskTimeout s))]\<rparr>"

text \<open>
  The \<open>for (const task of pendingTasks)\<close> loop of \<open>processQueue\<close>: take an idle worker,
  spawning one if there is none and the map is below \<open>maxWorkers\<close>; assign, or stop at the
  first task that finds no worker.
\<close>

fun dispatch :: "(nat \<Rightarrow> worker_id) \<Rightarrow> int \<Rightarrow> WorkerTask list \<Rightarrow> WorkerPool \<Rightarrow> WorkerPool" where
  "dispatch ids now [] s = s"
| "dispatch ids now (task # rest) s =
     (let s1 = (if getAvailableWorker s = None \<and> length (workers s) < maxWorkers s
                then snd (spawnWorker ids now s) else s)
      in case getAvailableWorker s1 of
           Some a \<Rightarrow> dispatch ids now rest (assignTask a task now s1)
         | None \<Rightarrow> s1)"

definition pendingTasks :: "WorkerPool \<Rightarrow> WorkerTask list" where
  "pendingTasks s = filter (\<lambda>t. \<not> assigned s t) (taskQueue s)"

text \<open>
  \<open>Array.prototype.sort\<close> is stable (ECMAScript 2019), and the comparator
  \<open>(b.priority || 0) - (a.priority || 0)\<close> orders by priority descending: a stable sort on
  the key \<open>- prio\<close>, which is what \<open>sort_key\<close> is.  The sort is in place: the queue stays
  sorted.
\<close>

definition processQueue :: "(nat \<Rightarrow> worker_id) \<Rightarrow> int \<Rightarrow> WorkerPool \<Rightarrow> WorkerPool" where
  "processQueue ids now s =
     (if taskQueue s = [] then s
      else if isShuttingDown s then s
      else let s1 = s\<lparr>taskQueue := sort_key (\<lambda>t. - prio t) (taskQueue s)\<rparr>
           in dispatch ids now (pendingTasks s1) s1)"

subsection \<open>Public operations\<close>

definition execute ::
  "(nat \<Rightarrow> worker_id) \<Rightarrow> string \<Rightarrow> payload \<Rightarrow> ExecuteOptions option \<Rightarrow> string \<Rightarrow> int \<Rightarrow>
   WorkerPool \<Rightarrow> (js_error + future) \<times> WorkerPool" where
  "execute ids ty dat options tid now s =
     (if isShuttingDown s then (Inl (Error ''Worker pool is shutting down''), s)
      else let task = \<lparr>task_id = tid, task_type = ty, task_data = dat,
                       task_future = nextFuture s,
                       task_timeout = (case options of None \<Rightarrow> None | Some opts \<Rightarrow> opt_timeout opts),
                       task_priority = (case options of None \<Rightarrow> None | Some opts \<Rightarrow> opt_priority opts)\<rparr>
           in (Inr (nextFuture s),
               processQueue ids now
                 (s\<lparr>nextFuture := Suc (nextFuture s), taskQueue := taskQueue s @ [task]\<rparr>)))"

definition getStats :: "WorkerPool \<Rightarrow> PoolStats" where
  "getStats s =
     (let infos = map (\<lambda>p. heap s (snd p)) (workers s);
          busyCount = length (filter busy infos)
      in \<lparr>totalWorkers = length (workers s),
          busyWorkers = busyCount,
          idleWorkers = length (workers s) - busyCount,
          queuedTasks = length (taskQueue s),
          totalTasksCompleted = sum_list (map tasksCompleted infos),
          totalErrors = sum_list (map errors infos)\<rparr>)"

subsection \<open>Handlers\<close>

text \<open>
  \<open>const [task] = this.taskQueue.splice(taskIndex, 1)\<close> followed by \<open>task.resolve\<close> or
  \<open>task.reject\<close>: the task at \<open>taskIndex\<close> leaves the queue and its promise is settled.
\<close>

definition spliceAndSettle :: "nat \<Rightarrow> outcome \<Rightarrow> WorkerPool \<Rightarrow> WorkerPool" where
  "spliceAndSettle taskIndex out s =
     s\<lparr>taskQueue := splice1 taskIndex (taskQueue s),
       settled := settled s @ [(task_future (taskQueue s ! taskIndex), out)]\<rparr>"

definition handleWorkerMessage ::
  "(nat \<Rightarrow> worker_id) \<Rightarrow> worker_id \<Rightarrow> WorkerResult \<Rightarrow> int \<Rightarrow> WorkerPool \<Rightarrow> WorkerPool" where
  "handleWorkerMessage ids workerId result now s =
     (case map_of (workers s) workerId of
        None \<Rightarrow> s
      | Some a \<Rightarrow>
         (let s1 = s\<lparr>heap := (heap s)(a := (heap s a)\<lparr>busy := False, currentTask := None,
                              lastActivity := now,
                              tasksCompleted := Suc (tasksCompleted (heap s a))\<rparr>)\<rparr>
          in case findIndex (\<lambda>t. task_id t = res_taskId result) (taskQueue s1) of
               None \<Rightarrow> s1
             | Some taskIndex \<Rightarrow>
                 processQueue ids now
                   (spliceAndSettle taskIndex
                      (if res_success result then Resolved (res_data result)
                       else Rejected (Error (str_or (res_error result) ''Task failed'')))
                      s1)))"

text \<open>
  \<open>handleWorkerError\<close> up to, but not including, its final \<open>this.processQueue()\<close>, for a
  worker found in the map at address \<open>a\<close>:  reject the current task, terminate, delete,
  respawn.  \<open>if (workerInfo.currentTask)\<close> is a truthiness test: the empty string fails it.
\<close>

definition rejectCurrentTask :: "addr \<Rightarrow> js_error \<Rightarrow> WorkerPool \<Rightarrow> WorkerPool" where
  "rejectCurrentTask a err s =
     (case currentTask (heap s a) of
        None \<Rightarrow> s
      | Some tid \<Rightarrow>
          if tid = [] then s
          else (case findIndex (\<lambda>t. task_id t = tid) (taskQueue s) of
                  None \<Rightarrow> s
                | Some taskIndex \<Rightarrow> spliceAndSettle taskIndex (Rejected err) s))"

definition respawnIfBelowMin :: "(nat \<Rightarrow> worker_id) \<Rightarrow> int \<Rightarrow> WorkerPool \<Rightarrow> WorkerPool" where
  "respawnIfBelowMin ids now s =
     (if \<not> isShuttingDown s \<and> length (workers s) < minWorkers s
      then snd (spawnWorker ids now s) else s)"

definition replaceWorker ::
  "(nat \<Rightarrow> worker_id) \<Rightarrow> worker_id \<Rightarrow> addr \<Rightarrow> js_error \<Rightarrow> int \<Rightarrow> WorkerPool \<Rightarrow> WorkerPool" where
  "replaceWorker ids workerId a err now s =
     (let s1 = rejectCurrentTask a err s;
          s2 = s1\<lparr>terminated := terminated s1 @ [a],
                  workers := AList.delete workerId (workers s1)\<rparr>
      in respawnIfBelowMin ids now s2)"

definition handleWorkerError ::
  "(nat \<Rightarrow> worker_id) \<Rightarrow> worker_id \<Rightarrow> js_error \<Rightarrow> int \<Rightarrow> WorkerPool \<Rightarrow> WorkerPool" where
  "handleWorkerError ids workerId err now s =
     (case map_of (workers s) workerId of
        None \<Rightarrow> s
      | Some a \<Rightarrow> processQueue ids now (replaceWorker ids workerId a err now s))"

text \<open>The handlers \<open>spawnWorker\<close> registers on the worker at address \<open>a\<close> (its id is \<open>ids a\<close>).\<close>

definition onMessage ::
  "(nat \<Rightarrow> worker_id) \<Rightarrow> addr \<Rightarrow> WorkerResult \<Rightarrow> int \<Rightarrow> WorkerPool \<Rightarrow> WorkerPool" where
  "onMessage ids a result now s = handleWorkerMessage ids (ids a) result now s"

definition onError ::
  "(nat \<Rightarrow> worker_id) \<Rightarrow> addr \<Rightarrow> js_error \<Rightarrow> int \<Rightarrow> WorkerPool \<Rightarrow> WorkerPool" where
  "onError ids a err now s =
     handleWorkerError ids (ids a) err now
       (s\<lparr>heap := (heap s)(a := (heap s a)\<lparr>errors := Suc (errors (heap s a))\<rparr>)\<rparr>)"

definition onExit :: "(nat \<Rightarrow> worker_id) \<Rightarrow> addr \<Rightarrow> int \<Rightarrow> WorkerPool \<Rightarrow> WorkerPool" where
  "onExit ids a now s =
     respawnIfBelowMin ids now (s\<lparr>workers := AList.delete (ids a) (workers s)\<rparr>)"

text \<open>The callback \<open>processQueue\<close> hands to \<open>setTimeout\<close> for worker object \<open>a\<close> and \<open>task\<close>.\<close>

definition timeoutCallback :: "addr \<Rightarrow> WorkerTask \<Rightarrow> WorkerPool \<Rightarrow> WorkerPool" where
  "timeoutCallback a task s =
     (if currentTask (heap s a) = Some (task_id task) then
        (let s1 = (case findIndex (\<lambda>t. task_id t = task_id task) (taskQueue s) of
                     None \<Rightarrow> s
                   | Some taskIndex \<Rightarrow>
                       spliceAndSettle taskIndex (Rejected (Error ''Task timeout'')) s)
         in s1\<lparr>heap := (heap s1)(a := (heap s1 a)\<lparr>busy := False, currentTask := None\<rparr>)\<rparr>)
      else s)"

text \<open>
  \<open>cleanupIdleWorkers\<close>: the \<open>for ... of this.workers\<close> loop visits every entry present at
  its start (an entry is only ever deleted while it is the current one) and re-reads
  \<open>this.workers.size\<close> at each entry.
\<close>

fun cleanup_loop :: "int \<Rightarrow> (worker_id \<times> addr) list \<Rightarrow> WorkerPool \<Rightarrow> WorkerPool" where
  "cleanup_loop now [] s = s"
| "cleanup_loop now (p # rest) s =
     cleanup_loop now rest
       (if \<not> busy (heap s (snd p)) \<and> length (workers s) > minWorkers s
           \<and> now - lastActivity (heap s (snd p)) > idleTimeout s
        then s\<lparr>terminated := terminated s @ [snd p],
               workers := AList.delete (fst p) (workers s)\<rparr>
        else s)"

definition cleanupIdleWorkers :: "int \<Rightarrow> WorkerPool \<Rightarrow> WorkerPool" where
  "cleanupIdleWorkers now s = cleanup_loop now (workers s) s"

subsection \<open>Shutdown\<close>

text \<open>
  \<open>shutdown\<close> is an \<open>async\<close> function: it runs in three synchronous stages separated by
  \<open>await\<close>s, during which other handlers run.
\<close>

definition shutdownBegin :: "WorkerPool \<Rightarrow> WorkerPool" where
  "shutdownBegin s = s\<lparr>isShuttingDown := True\<rparr>"

definition shutdownRejectRemaining :: "WorkerPool \<Rightarrow> WorkerPool" where
  "shutdownRejectRemaining s =
     s\<lparr>settled := settled s @
          map (\<lambda>task. (task_future task, Rejected (Error ''Worker pool shutdown''))) (taskQueue s),
       taskQueue := [],
       terminated := terminated s @ map snd (workers s)\<rparr>"

definition shutdownClear :: "WorkerPool \<Rightarrow> WorkerPool" where
  "shutdownClear s = s\<lparr>workers := []\<rparr>"

subsection \<open>Events\<close>

datatype event =
    Execute string payload "ExecuteOptions option" string int
  | Message addr WorkerResult int
  | ErrorEvent addr js_error int
  | ExitEvent addr int
  | TimerFires nat
  | CleanupTick int
  | ShutdownBegin
  | ShutdownRejectRemaining
  | ShutdownClear

text \<open>
  One handler run.  A worker event can only come from a worker that was spawned, and a
  timer fires once: the \<open>i\<close>-th pending one is taken off \<open>timers\<close>.
\<close>

fun step :: "(nat \<Rightarrow> worker_id) \<Rightarrow> WorkerPool \<Rightarrow> event \<Rightarrow> WorkerPool" where
  "step ids s (Execute ty dat options tid now) = snd (execute ids ty dat options tid now s)"
| "step ids s (Message a result now) = (if a < nextAddr s then onMessage ids a result now s else s)"
| "step ids s (ErrorEvent a err now) = (if a < nextAddr s then onError ids a err now s else s)"
| "step ids s (ExitEvent a now) = (if a < nextAddr s then onExit ids a now s else s)"
| "step ids s (TimerFires i) =
     (if i < length (timers s)
      then timeoutCallback (fst (timers s ! i)) (fst (snd (timers s ! i)))
             (s\<lparr>timers := splice1 i (timers s)\<rparr>)
      else s)"
| "step ids s (CleanupTick now) = cleanupIdleWorkers now s"
| "step ids s ShutdownBegin = shutdownBegin s"
| "step ids s ShutdownRejectRemaining = shutdownRejectRemaining s"
| "step ids s ShutdownClear = shutdownClear s"

definition run :: "(nat \<Rightarrow> worker_id) \<Rightarrow> event list \<Rightarrow> WorkerPool \<Rightarrow> WorkerPool" where
  "run ids evs s = foldl (step ids) s evs"

text \<open>
  The drain loop of \<open>shutdown\<close>,
  \<open>while (this.taskQueue.length > 0 && Date.now() < deadline) await sleep(100)\<close>.
  Each element of the schedule is one evaluation of the loop condition: the clock reading and
  the handlers that run during the sleep that follows if the loop goes on.  The result is
  the clock reading and the state at which the loop ends; \<open>None\<close>: the loop is still
  waiting when the schedule ends.
\<close>

fun shutdownWait ::
  "(nat \<Rightarrow> worker_id) \<Rightarrow> int \<Rightarrow> (int \<times> event list) list \<Rightarrow> WorkerPool \<Rightarrow>
   (int \<times> WorkerPool) option" where
  "shutdownWait ids deadline [] s = None"
| "shutdownWait ids deadline ((now, evs) # polls) s =
     (if taskQueue s \<noteq> [] \<and> now < deadline
      then shutdownWait ids deadline polls (run ids evs s)
      else Some (now, s))"

text \<open>
  \<open>shutdown(timeout = 10000)\<close> called at clock reading \<open>started\<close>; \<open>evs\<close> are the handlers
  that run while \<open>Promise.all(terminatePromises)\<close> is awaited.
\<close>

definition shutdown ::
  "(nat \<Rightarrow> worker_id) \<Rightarrow> int option \<Rightarrow> int \<Rightarrow> (int \<times> event list) list \<Rightarrow> event list \<Rightarrow>
   WorkerPool \<Rightarrow> WorkerPool option" where
  "shutdown ids timeout started polls evs s =
     (let deadline = started + (case timeout of None \<Rightarrow> 10000 | Some t \<Rightarrow> t)
      in case shutdownWait ids deadline polls (shutdownBegin s) of
           None \<Rightarrow> None
         | Some (now, s1) \<Rightarrow> Some (shutdownClear (run ids evs (shutdownRejectRemaining s1))))"


section \<open>Observations and invariants\<close>

text \<open>How often \<open>resolve\<close> or \<open>reject\<close> has been called on the promise \<open>f\<close>.\<close>

definition settlements :: "WorkerPool \<Rightarrow> future \<Rightarrow> nat" where
  "settlements s f = length (filter (\<lambda>p. fst p = f) (settled s))"

text \<open>The task of promise \<open>f\<close> is in the task queue.\<close>

definition queued :: "WorkerPool \<Rightarrow> future \<Rightarrow> bool" where
  "queued s f = list_ex (\<lambda>t. task_future t = f) (taskQueue s)"

text \<open>The promises of the queued tasks together with the promises settled so far.\<close>

definition ledger :: "WorkerPool \<Rightarrow> future multiset" where
  "ledger s = mset (map task_future (taskQueue s)) + mset (map fst (settled s))"

text \<open>
  Promises are numbered in the order of the \<open>execute\<close> calls, so \<open>task_future\<close> is the
  submission order.  A queue is in FIFO order within each priority when tasks of equal
  priority stand in submission order.
\<close>

definition fifo_order :: "WorkerTask list \<Rightarrow> bool" where
  "fifo_order q = sorted_wrt (\<lambda>a b. prio a = prio b \<longrightarrow> task_future a < task_future b) q"

text \<open>
  The order in which a dispatch pass is to consider two pending tasks: the higher priority
  first, and of two tasks of equal priority the one submitted first.
\<close>

definition dispatch_before :: "WorkerTask \<Rightarrow> WorkerTask \<Rightarrow> bool" where
  "dispatch_before a b \<longleftrightarrow>
     prio b < prio a \<or> (prio a = prio b \<and> task_future a < task_future b)"

text \<open>What every handler but \<open>execute\<close> preserves.\<close>

definition stable :: "WorkerPool \<Rightarrow> WorkerPool \<Rightarrow> bool" where
  "stable s s' \<longleftrightarrow>
     ledger s' = ledger s \<and> nextFuture s' = nextFuture s \<and>
     maxWorkers s' = maxWorkers s \<and> minWorkers s' = minWorkers s \<and>
     (fifo_order (taskQueue s) \<longrightarrow> fifo_order (taskQueue s')) \<and>
     (distinct (map fst (workers s)) \<longrightarrow> distinct (map fst (workers s'))) \<and>
     (minWorkers s \<le> maxWorkers s \<longrightarrow> length (workers s) \<le> maxWorkers s \<longrightarrow>
        length (workers s') \<le> maxWorkers s) \<and>
     (isShuttingDown s \<longrightarrow> isShuttingDown s' \<and> nextAddr s' = nextAddr s)"

definition pool_inv :: "WorkerPool \<Rightarrow> bool" where
  "pool_inv s \<longleftrightarrow>
     ledger s = mset [0..<nextFuture s] \<and> fifo_order (taskQueue s) \<and>
     distinct (map fst (workers s)) \<and>
     (minWorkers s \<le> maxWorkers s \<longrightarrow> length (workers s) \<le> maxWorkers s)"

section \<open>Example inputs\<close>

text \<open>A pool built on a four-core machine with explicit \<open>minWorkers\<close> and \<open>maxWorkers\<close>.\<close>

definition demo_pool :: "nat \<Rightarrow> nat \<Rightarrow> WorkerPool" where
  "demo_pool mn mx =
     constructor 4 \<lparr>opt_workerScript = ''general.worker'', opt_maxWorkers = Some mx,
       opt_minWorkers = Some mn, opt_idleTimeout = None, opt_taskTimeout = None\<rparr> id 0"

definition demo_success :: "string \<Rightarrow> WorkerResult" where
  "demo_success tid = \<lparr>res_taskId = tid, res_success = True, res_data = Some ''done'',
                         res_error = None\<rparr>"

section \<open>Lemmas on the helpers\<close>

lemma findIndex_None: "findIndex P xs = None \<longleftrightarrow> (\<forall>x\<in>set xs. \<not> P x)"
  by (induction xs) auto

lemma findIndex_Some:
  "findIndex P xs = Some i \<Longrightarrow> i < length xs \<and> P (xs ! i) \<and> (\<forall>j<i. \<not> P (xs ! j))"
proof (induction xs arbitrary: i)
  case Nil
  then show ?case by simp
next
  case (Cons x xs)
  show ?case
  proof (cases "P x")
    case True
    with Cons.prems show ?thesis by simp
  next
    case False
    with Cons.prems obtain k where k: "findIndex P xs = Some k" "i = Suc k" by auto
    from Cons.IH[OF k(1)] False k(2) show ?thesis
      by (auto simp: nth_Cons split: nat.splits)
  qed
qed

lemma splice1_Nil [simp]: "splice1 i [] = []"
  by (simp add: splice1_def)

lemma splice1_0 [simp]: "splice1 0 (x # xs) = xs"
  by (simp add: splice1_def)

lemma splice1_Suc [simp]: "splice1 (Suc i) (x # xs) = x # splice1 i xs"
  by (simp add: splice1_def)

lemma set_splice1_subset: "set (splice1 i xs) \<subseteq> set xs"
  by (auto simp: splice1_def dest: in_set_takeD in_set_dropD)

lemma mset_splice1: "i < length xs \<Longrightarrow> add_mset (xs ! i) (mset (splice1 i xs)) = mset xs"
proof (induction xs arbitrary: i)
  case Nil
  then show ?case by simp
next
  case (Cons x xs)
  then show ?case by (cases i) auto
qed

lemma sorted_wrt_splice1: "sorted_wrt R xs \<Longrightarrow> sorted_wrt R (splice1 i xs)"
proof (induction xs arbitrary: i)
  case Nil
  then show ?case by simp
next
  case (Cons x xs)
  show ?case
  proof (cases i)
    case 0
    with Cons.prems show ?thesis by simp
  next
    case (Suc k)
    with Cons show ?thesis using set_splice1_subset[of k xs] by auto
  qed
qed

lemma snd_spawnWorker:
  "snd (spawnWorker ids now s) =
     s\<lparr>heap := (heap s)(nextAddr s := \<lparr>busy = False, currentTask = None, tasksCompleted = 0,
                                          errors = 0, lastActivity = now\<rparr>),
       nextAddr := Suc (nextAddr s),
       workers := AList.update (ids (nextAddr s)) (nextAddr s) (workers s)\<rparr>"
  by (simp add: spawnWorker_def Let_def)

lemma spawn_loop_config:
  "maxWorkers (spawn_loop ids now n s) = maxWorkers s"
  "minWorkers (spawn_loop ids now n s) = minWorkers s"
  "idleTimeout (spawn_loop ids now n s) = idleTimeout s"
  "taskTimeout (spawn_loop ids now n s) = taskTimeout s"
  by (induction n arbitrary: s; simp add: snd_spawnWorker)+

section \<open>Lemmas on the handlers\<close>

lemma length_update_le: "length (AList.update k v al) \<le> Suc (length al)"
  by (induction al) auto

lemma in_set_update: "(k, v) \<in> set (AList.update k v al)"
  by (induction al) auto

lemma dispatch_frame:
  "taskQueue (dispatch ids now ts s) = taskQueue s"
  "settled (dispatch ids now ts s) = settled s"
  "nextFuture (dispatch ids now ts s) = nextFuture s"
  "isShuttingDown (dispatch ids now ts s) = isShuttingDown s"
  "maxWorkers (dispatch ids now ts s) = maxWorkers s"
  "minWorkers (dispatch ids now ts s) = minWorkers s"
  "idleTimeout (dispatch ids now ts s) = idleTimeout s"
  "taskTimeout (dispatch ids now ts s) = taskTimeout s"
  "terminated (dispatch ids now ts s) = terminated s"
  by (induction ts arbitrary: s;
      simp add: Let_def snd_spawnWorker assignTask_def split: option.splits)+

lemma dispatch_capacity:
  "length (workers s) \<le> maxWorkers s \<Longrightarrow> length (workers (dispatch ids now ts s)) \<le> maxWorkers s"
proof (induction ts arbitrary: s)
  case Nil
  then show ?case by simp
next
  case (Cons task rest)
  let ?s1 = "if getAvailableWorker s = None \<and> length (workers s) < maxWorkers s
             then snd (spawnWorker ids now s) else s"
  have cap: "length (workers ?s1) \<le> maxWorkers ?s1" and mx: "maxWorkers ?s1 = maxWorkers s"
    using Cons.prems length_update_le[of "ids (nextAddr s)" "nextAddr s" "workers s"]
    by (auto simp: snd_spawnWorker)
  show ?case
  proof (cases "getAvailableWorker ?s1")
    case None
    then show ?thesis using cap mx by (simp add: Let_def)
  next
    case (Some a)
    have "length (workers (assignTask a task now ?s1)) \<le> maxWorkers (assignTask a task now ?s1)"
      using cap by (simp add: assignTask_def)
    from Cons.IH[OF this] Some mx show ?thesis
      by (simp add: Let_def assignTask_def)
  qed
qed

lemma dispatch_distinct:
  "distinct (map fst (workers s)) \<Longrightarrow> distinct (map fst (workers (dispatch ids now ts s)))"
proof (induction ts arbitrary: s)
  case Nil
  then show ?case by simp
next
  case (Cons task rest)
  let ?s1 = "if getAvailableWorker s = None \<and> length (workers s) < maxWorkers s
             then snd (spawnWorker ids now s) else s"
  have d: "distinct (map fst (workers ?s1))"
    using Cons.prems by (auto simp: snd_spawnWorker distinct_update)
  show ?case
  proof (cases "getAvailableWorker ?s1")
    case None
    then show ?thesis using d by (simp add: Let_def)
  next
    case (Some a)
    have "distinct (map fst (workers (assignTask a task now ?s1)))"
      using d by (simp add: assignTask_def)
    from Cons.IH[OF this] Some show ?thesis
      by (simp add: Let_def)
  qed
qed

lemma processQueue_frame:
  "settled (processQueue ids now s) = settled s"
  "nextFuture (processQueue ids now s) = nextFuture s"
  "isShuttingDown (processQueue ids now s) = isShuttingDown s"
  "maxWorkers (processQueue ids now s) = maxWorkers s"
  "minWorkers (processQueue ids now s) = minWorkers s"
  "idleTimeout (processQueue ids now s) = idleTimeout s"
  "taskTimeout (processQueue ids now s) = taskTimeout s"
  "terminated (processQueue ids now s) = terminated s"
  by (simp_all add: processQueue_def Let_def dispatch_frame)

lemma processQueue_queue:
  "taskQueue (processQueue ids now s) =
     (if isShuttingDown s then taskQueue s else sort_key (\<lambda>t. - prio t) (taskQueue s))"
  by (simp add: processQueue_def Let_def dispatch_frame)

lemma processQueue_mset: "mset (taskQueue (processQueue ids now s)) = mset (taskQueue s)"
  by (simp add: processQueue_queue)

lemma processQueue_shutting: "isShuttingDown s \<Longrightarrow> processQueue ids now s = s"
  by (simp add: processQueue_def)

lemma processQueue_capacity:
  "length (workers s) \<le> maxWorkers s \<Longrightarrow> length (workers (processQueue ids now s)) \<le> maxWorkers s"
  using dispatch_capacity[of "s\<lparr>taskQueue := sort_key (\<lambda>t. - prio t) (taskQueue s)\<rparr>"]
  by (simp add: processQueue_def Let_def)

lemma processQueue_distinct:
  "distinct (map fst (workers s)) \<Longrightarrow> distinct (map fst (workers (processQueue ids now s)))"
  using dispatch_distinct[of "s\<lparr>taskQueue := sort_key (\<lambda>t. - prio t) (taskQueue s)\<rparr>"]
  by (simp add: processQueue_def Let_def)

lemma processQueue_ledger: "ledger (processQueue ids now s) = ledger s"
proof -
  have "mset (map task_future (taskQueue (processQueue ids now s))) =
        image_mset task_future (mset (taskQueue (processQueue ids now s)))" by simp
  also have "\<dots> = mset (map task_future (taskQueue s))"
    by (simp only: processQueue_mset mset_map)
  finally show ?thesis by (simp add: ledger_def processQueue_frame)
qed

lemma fifo_order_iff:
  "sorted_wrt (\<lambda>a b. key a = key b \<longrightarrow> R a b) xs \<longleftrightarrow>
     (\<forall>k. sorted_wrt R (filter (\<lambda>x. key x = k) xs))"
proof (induction xs)
  case Nil
  then show ?case by simp
next
  case (Cons x xs)
  show ?case
  proof
    assume l: "sorted_wrt (\<lambda>a b. key a = key b \<longrightarrow> R a b) (x # xs)"
    with Cons.IH show "\<forall>k. sorted_wrt R (filter (\<lambda>x. key x = k) (x # xs))" by auto
  next
    assume r: "\<forall>k. sorted_wrt R (filter (\<lambda>x. key x = k) (x # xs))"
    have "sorted_wrt R (filter (\<lambda>y. key y = k) xs)" for k
      using r[rule_format, of k] by (auto split: if_splits)
    then have tl: "sorted_wrt (\<lambda>a b. key a = key b \<longrightarrow> R a b) xs"
      using Cons.IH by simp
    have "R x y" if "y \<in> set xs" "key x = key y" for y
      using r[rule_format, of "key x"] that by auto
    with tl show "sorted_wrt (\<lambda>a b. key a = key b \<longrightarrow> R a b) (x # xs)" by auto
  qed
qed

lemma fifo_order_sort: "fifo_order q \<Longrightarrow> fifo_order (sort_key (\<lambda>t. - prio t) q)"
proof -
  assume a: "fifo_order q"
  have eq: "filter (\<lambda>x. prio x = k) (sort_key (\<lambda>t. - prio t) q) = filter (\<lambda>x. prio x = k) q" for k
    using sort_key_stable[of "\<lambda>t. - prio t" "- k" q] by simp
  from a show ?thesis
    unfolding fifo_order_def fifo_order_iff[of prio] by (simp add: eq)
qed

lemma fifo_order_splice1: "fifo_order q \<Longrightarrow> fifo_order (splice1 i q)"
  unfolding fifo_order_def by (rule sorted_wrt_splice1)

lemma fifo_order_snoc:
  "fifo_order q \<Longrightarrow> \<forall>t\<in>set q. task_future t < task_future x \<Longrightarrow> fifo_order (q @ [x])"
  unfolding fifo_order_def by (simp add: sorted_wrt_append)

lemma stable_refl: "stable s s"
  by (simp add: stable_def)

lemma stable_trans: "stable s s' \<Longrightarrow> stable s' s'' \<Longrightarrow> stable s s''"
  by (simp add: stable_def)

lemma stable_inv: "pool_inv s \<Longrightarrow> stable s s' \<Longrightarrow> pool_inv s'"
  by (simp add: stable_def pool_inv_def)

lemma stable_heap: "stable s (s\<lparr>heap := h\<rparr>)"
  by (simp add: stable_def ledger_def)

lemma stable_timers: "stable s (s\<lparr>timers := ts\<rparr>)"
  by (simp add: stable_def ledger_def)

lemma stable_delete:
  "stable s (s\<lparr>terminated := ts, workers := AList.delete k (workers s)\<rparr>)"
  "stable s (s\<lparr>workers := AList.delete k (workers s)\<rparr>)"
  using length_delete_le[of k "workers s"]
  by (auto simp: stable_def ledger_def distinct_delete)

lemma mset_map_splice1:
  "i < length q \<Longrightarrow> add_mset (f (q ! i)) (mset (map f (splice1 i q))) = mset (map f q)"
proof -
  assume "i < length q"
  then have "image_mset f (add_mset (q ! i) (mset (splice1 i q))) = image_mset f (mset q)"
    by (simp only: mset_splice1)
  then show ?thesis by simp
qed

lemma stable_spliceAndSettle:
  "i < length (taskQueue s) \<Longrightarrow> stable s (spliceAndSettle i out s)"
  using mset_map_splice1[of i "taskQueue s" task_future]
  by (simp add: stable_def spliceAndSettle_def ledger_def fifo_order_splice1)

lemma stable_processQueue: "stable s (processQueue ids now s)"
proof (cases "isShuttingDown s")
  case True
  then show ?thesis by (simp add: processQueue_shutting stable_refl)
next
  case False
  then show ?thesis
    by (simp add: stable_def processQueue_ledger processQueue_frame processQueue_queue
        fifo_order_sort processQueue_distinct processQueue_capacity)
qed

lemma stable_respawnIfBelowMin: "stable s (respawnIfBelowMin ids now s)"
  using length_update_le[of "ids (nextAddr s)" "nextAddr s" "workers s"]
  by (auto simp: stable_def respawnIfBelowMin_def snd_spawnWorker ledger_def distinct_update)

lemma stable_rejectCurrentTask: "stable s (rejectCurrentTask a err s)"
  by (auto simp: rejectCurrentTask_def stable_refl stable_spliceAndSettle
      split: option.splits dest: findIndex_Some)

lemma stable_replaceWorker: "stable s (replaceWorker ids workerId a err now s)"
  unfolding replaceWorker_def Let_def
  by (rule stable_trans[OF stable_rejectCurrentTask], rule stable_trans[OF stable_delete(1)],
      rule stable_respawnIfBelowMin)

lemma stable_handleWorkerError: "stable s (handleWorkerError ids workerId err now s)"
  by (auto simp: handleWorkerError_def stable_refl split: option.splits
      intro: stable_trans[OF stable_replaceWorker stable_processQueue])

lemma stable_onError: "stable s (onError ids a err now s)"
  unfolding onError_def
  by (rule stable_trans[OF stable_heap stable_handleWorkerError])

lemma stable_onExit: "stable s (onExit ids a now s)"
  unfolding onExit_def
  by (rule stable_trans[OF stable_delete(2) stable_respawnIfBelowMin])

lemma stable_handleWorkerMessage: "stable s (handleWorkerMessage ids workerId result now s)"
proof (cases "map_of (workers s) workerId")
  case None
  then show ?thesis by (simp add: handleWorkerMessage_def stable_refl)
next
  case (Some a)
  define s1 where "s1 = s\<lparr>heap := (heap s)(a := (heap s a)\<lparr>busy := False, currentTask := None,
                              lastActivity := now,
                              tasksCompleted := Suc (tasksCompleted (heap s a))\<rparr>)\<rparr>"
  have 1: "stable s s1" unfolding s1_def by (rule stable_heap)
  show ?thesis
  proof (cases "findIndex (\<lambda>t. task_id t = res_taskId result) (taskQueue s1)")
    case None
    with Some 1 show ?thesis by (simp add: handleWorkerMessage_def Let_def s1_def)
  next
    case (Some i)
    then have "i < length (taskQueue s1)" by (auto dest: findIndex_Some)
    then have "stable s1 (spliceAndSettle i out s1)" for out
      by (rule stable_spliceAndSettle)
    then have "stable s (processQueue ids now (spliceAndSettle i out s1))" for out
      using 1 stable_processQueue stable_trans by blast
    with Some \<open>map_of (workers s) workerId = Some a\<close> show ?thesis
      by (simp add: handleWorkerMessage_def Let_def s1_def)
  qed
qed

lemma stable_onMessage: "stable s (onMessage ids a result now s)"
  unfolding onMessage_def by (rule stable_handleWorkerMessage)

lemma stable_timeoutCallback: "stable s (timeoutCallback a task s)"
proof (cases "currentTask (heap s a) = Some (task_id task)")
  case False
  then show ?thesis by (simp add: timeoutCallback_def stable_refl)
next
  case True
  define s1 where "s1 = (case findIndex (\<lambda>t. task_id t = task_id task) (taskQueue s) of
                     None \<Rightarrow> s
                   | Some taskIndex \<Rightarrow>
                       spliceAndSettle taskIndex (Rejected (Error ''Task timeout'')) s)"
  have "stable s s1"
    unfolding s1_def
    by (auto simp: stable_refl stable_spliceAndSettle split: option.splits dest: findIndex_Some)
  then have "stable s (s1\<lparr>heap := (heap s1)(a := (heap s1 a)\<lparr>busy := False, currentTask := None\<rparr>)\<rparr>)"
    using stable_heap stable_trans by blast
  with True show ?thesis by (simp add: timeoutCallback_def Let_def s1_def)
qed

lemma stable_cleanup_loop: "stable s (cleanup_loop now ps s)"
proof (induction ps arbitrary: s)
  case Nil
  then show ?case by (simp add: stable_refl)
next
  case (Cons p ps)
  let ?s1 = "if \<not> busy (heap s (snd p)) \<and> length (workers s) > minWorkers s
           \<and> now - lastActivity (heap s (snd p)) > idleTimeout s
        then s\<lparr>terminated := terminated s @ [snd p],
               workers := AList.delete (fst p) (workers s)\<rparr>
        else s"
  have "stable s ?s1" by (simp add: stable_refl stable_delete)
  from stable_trans[OF this Cons.IH[of ?s1]] show ?case by simp
qed

lemma stable_cleanupIdleWorkers: "stable s (cleanupIdleWorkers now s)"
  unfolding cleanupIdleWorkers_def by (rule stable_cleanup_loop)

lemma stable_shutdownBegin: "stable s (shutdownBegin s)"
  by (simp add: stable_def shutdownBegin_def ledger_def)

lemma stable_shutdownRejectRemaining: "stable s (shutdownRejectRemaining s)"
  by (simp add: stable_def shutdownRejectRemaining_def ledger_def fifo_order_def comp_def)

lemma stable_shutdownClear: "stable s (shutdownClear s)"
  by (simp add: stable_def shutdownClear_def ledger_def)

lemma ledger_future_less:
  assumes "ledger s = mset [0..<nextFuture s]" "t \<in> set (taskQueue s)"
  shows "task_future t < nextFuture s"
proof -
  have "task_future t \<in># ledger s" using assms(2) by (simp add: ledger_def)
  then show ?thesis unfolding assms(1) by simp
qed

lemma execute_inv: "pool_inv s \<Longrightarrow> pool_inv (snd (execute ids ty dat options tid now s))"
proof (cases "isShuttingDown s")
  case True
  assume "pool_inv s"
  with True show ?thesis by (simp add: execute_def)
next
  case False
  assume inv: "pool_inv s"
  define task where "task = \<lparr>task_id = tid, task_type = ty, task_data = dat,
                       task_future = nextFuture s,
                       task_timeout = (case options of None \<Rightarrow> None | Some opts \<Rightarrow> opt_timeout opts),
                       task_priority = (case options of None \<Rightarrow> None | Some opts \<Rightarrow> opt_priority opts)\<rparr>"
  define s1 where "s1 = s\<lparr>nextFuture := Suc (nextFuture s), taskQueue := taskQueue s @ [task]\<rparr>"
  have lt: "\<forall>t\<in>set (taskQueue s). task_future t < task_future task"
    using inv ledger_future_less[of s] by (simp add: pool_inv_def task_def)
  have "pool_inv s1"
    using inv lt by (simp add: pool_inv_def s1_def ledger_def fifo_order_snoc task_def)
  then have "pool_inv (processQueue ids now s1)"
    using stable_inv stable_processQueue by blast
  with False show ?thesis by (simp add: execute_def Let_def s1_def task_def)
qed

lemma execute_shutting:
  "isShuttingDown s \<Longrightarrow> snd (execute ids ty dat options tid now s) = s"
  by (simp add: execute_def)

lemma execute_config:
  "maxWorkers (snd (execute ids ty dat options tid now s)) = maxWorkers s"
  "minWorkers (snd (execute ids ty dat options tid now s)) = minWorkers s"
  by (simp_all add: execute_def Let_def processQueue_frame)

lemma step_stable:
  "case e of Execute ty dat options tid now \<Rightarrow> True | _ \<Rightarrow> stable s (step ids s e)"
  by (cases e)
     (auto simp: stable_refl stable_onMessage stable_onError stable_onExit
        stable_cleanupIdleWorkers stable_shutdownBegin stable_shutdownRejectRemaining
        stable_shutdownClear
        intro: stable_trans[OF stable_timers stable_timeoutCallback])

lemma step_inv: "pool_inv s \<Longrightarrow> pool_inv (step ids s e)"
proof (cases e)
  case (Execute ty dat options tid now)
  assume "pool_inv s"
  with Execute show ?thesis by (simp add: execute_inv)
qed (use step_stable[where e=e and s=s and ids=ids] stable_inv[of s "step ids s e"] in \<open>simp_all\<close>)

lemma step_config:
  "maxWorkers (step ids s e) = maxWorkers s" "minWorkers (step ids s e) = minWorkers s"
proof -
  have "maxWorkers (step ids s e) = maxWorkers s \<and> minWorkers (step ids s e) = minWorkers s"
  proof (cases e)
    case (Execute ty dat options tid now)
    then show ?thesis by (simp add: execute_config)
  qed (use step_stable[where e=e and s=s and ids=ids] in \<open>simp_all add: stable_def\<close>)
  then show "maxWorkers (step ids s e) = maxWorkers s" "minWorkers (step ids s e) = minWorkers s"
    by simp_all
qed

lemma step_shutting:
  "isShuttingDown s \<Longrightarrow> isShuttingDown (step ids s e) \<and> nextAddr (step ids s e) = nextAddr s"
proof (cases e)
  case (Execute ty dat options tid now)
  assume "isShuttingDown s"
  with Execute show ?thesis by (simp add: execute_shutting)
qed (use step_stable[where e=e and s=s and ids=ids] in \<open>simp_all add: stable_def\<close>)

lemma run_Nil [simp]: "run ids [] s = s"
  by (simp add: run_def)

lemma run_Cons [simp]: "run ids (e # evs) s = run ids evs (step ids s e)"
  by (simp add: run_def)

lemma run_append: "run ids (evs @ evs') s = run ids evs' (run ids evs s)"
  by (simp add: run_def)

lemma run_inv: "pool_inv s \<Longrightarrow> pool_inv (run ids evs s)"
  by (induction evs arbitrary: s) (simp_all add: step_inv)

lemma run_config:
  "maxWorkers (run ids evs s) = maxWorkers s" "minWorkers (run ids evs s) = minWorkers s"
  by (induction evs arbitrary: s; simp add: step_config)+

lemma run_shutting:
  "isShuttingDown s \<Longrightarrow> isShuttingDown (run ids evs s) \<and> nextAddr (run ids evs s) = nextAddr s"
proof (induction evs arbitrary: s)
  case Nil
  then show ?case by simp
next
  case (Cons e evs)
  from step_shutting[OF Cons.prems, of ids e] Cons.IH[of "step ids s e"] show ?case by simp
qed

lemma spawn_loop_frame:
  "taskQueue (spawn_loop ids now n s) = taskQueue s"
  "settled (spawn_loop ids now n s) = settled s"
  "nextFuture (spawn_loop ids now n s) = nextFuture s"
  "isShuttingDown (spawn_loop ids now n s) = isShuttingDown s"
  by (induction n arbitrary: s; simp add: snd_spawnWorker)+

lemma spawn_loop_length: "length (workers (spawn_loop ids now n s)) \<le> length (workers s) + n"
proof (induction n arbitrary: s)
  case 0
  then show ?case by simp
next
  case (Suc n)
  from Suc.IH[of "snd (spawnWorker ids now s)"]
    length_update_le[of "ids (nextAddr s)" "nextAddr s" "workers s"]
  show ?case by (simp add: snd_spawnWorker)
qed

lemma spawn_loop_distinct:
  "distinct (map fst (workers s)) \<Longrightarrow> distinct (map fst (workers (spawn_loop ids now n s)))"
  by (induction n arbitrary: s) (simp_all add: snd_spawnWorker distinct_update)

lemma constructor_inv: "pool_inv (constructor cpus options ids now)"
  using spawn_loop_length[of ids now
      "num_or (opt_minWorkers options) (max 1 (cpus div 2))"
      "\<lparr>workers = [], taskQueue = [],
                workerScript = opt_workerScript options,
                maxWorkers = num_or (opt_maxWorkers options) cpus,
                minWorkers = num_or (opt_minWorkers options) (max 1 (cpus div 2)),
                idleTimeout = num_or (opt_idleTimeout options) 30000,
                taskTimeout = num_or (opt_taskTimeout options) 60000,
                isShuttingDown = False,
                heap = (\<lambda>_. \<lparr>busy = False, currentTask = None, tasksCompleted = 0,
                                 errors = 0, lastActivity = 0\<rparr>),
                nextAddr = 0, nextFuture = 0, settled = [], posted = [], timers = [],
                terminated = []\<rparr>"]
  by (simp add: pool_inv_def constructor_def Let_def ledger_def spawn_loop_frame
      spawn_loop_config fifo_order_def spawn_loop_distinct)

lemma count_mset_map: "count (mset (map g xs)) y = length (filter (\<lambda>p. g p = y) xs)"
  by (induction xs) auto

lemma queued_iff: "queued s f \<longleftrightarrow> filter (\<lambda>t. task_future t = f) (taskQueue s) \<noteq> []"
  by (auto simp: queued_def list_ex_iff filter_empty_conv)

lemma ledger_settlements:
  assumes "ledger s = mset [0..<nextFuture s]" "f < nextFuture s"
  shows "settlements s f = (if queued s f then 0 else 1)"
proof -
  have "count (ledger s) f = 1"
    unfolding assms(1) using assms(2) by (simp add: count_mset count_list_eq_length_filter)
  then have sum: "length (filter (\<lambda>t. task_future t = f) (taskQueue s)) + settlements s f = 1"
    by (simp only: ledger_def count_union count_mset_map settlements_def)
  show ?thesis
  proof (cases "queued s f")
    case True
    then have "filter (\<lambda>t. task_future t = f) (taskQueue s) \<noteq> []"
      unfolding queued_iff by simp
    with sum True show ?thesis
      by (cases "filter (\<lambda>t. task_future t = f) (taskQueue s)") simp_all
  next
    case False
    then have "length (filter (\<lambda>t. task_future t = f) (taskQueue s)) = 0"
      unfolding queued_iff by simp
    with sum False show ?thesis by simp
  qed
qed

lemma reachable_inv: "pool_inv (run ids evs (constructor cpus options ids now))"
  by (rule run_inv[OF constructor_inv])

lemma dispatch_full:
  "maxWorkers s \<le> length (workers s) \<Longrightarrow>
   nextAddr (dispatch ids now ts s) = nextAddr s \<and> workers (dispatch ids now ts s) = workers s"
proof (induction ts arbitrary: s)
  case Nil
  then show ?case by simp
next
  case (Cons task rest)
  show ?case
  proof (cases "getAvailableWorker s")
    case None
    with Cons.prems show ?thesis by (simp add: Let_def)
  next
    case (Some a)
    have "maxWorkers (assignTask a task now s) \<le> length (workers (assignTask a task now s))"
      using Cons.prems by (simp add: assignTask_def)
    from Cons.IH[OF this] Some show ?thesis
      by (simp add: Let_def assignTask_def)
  qed
qed

lemma processQueue_full:
  "maxWorkers s \<le> length (workers s) \<Longrightarrow> nextAddr (processQueue ids now s) = nextAddr s"
  using dispatch_full[of "s\<lparr>taskQueue := sort_key (\<lambda>t. - prio t) (taskQueue s)\<rparr>"]
  by (simp add: processQueue_def Let_def)

lemma getStats_busy_le: "busyWorkers (getStats s) \<le> totalWorkers (getStats s)"
proof -
  have "length (filter busy (map (\<lambda>p. heap s (snd p)) (workers s))) \<le>
        length (map (\<lambda>p. heap s (snd p)) (workers s))"
    by (rule length_filter_le)
  then show ?thesis by (simp add: getStats_def Let_def)
qed

lemma set_delete: "set (AList.delete k al) = {p \<in> set al. fst p \<noteq> k}"
  by (auto simp: AList.delete_eq)

lemma length_delete_distinct:
  "distinct (map fst al) \<Longrightarrow> length al \<le> Suc (length (AList.delete k al))"
  by (induction al) (auto simp: rev_image_eqI)

lemma cleanup_loop_frame:
  "heap (cleanup_loop now ps s) = heap s"
  "minWorkers (cleanup_loop now ps s) = minWorkers s"
  "idleTimeout (cleanup_loop now ps s) = idleTimeout s"
  by (induction ps arbitrary: s; simp)+

lemma cleanup_loop_subset: "set (workers (cleanup_loop now ps s)) \<subseteq> set (workers s)"
proof (induction ps arbitrary: s)
  case Nil
  then show ?case by simp
next
  case (Cons p ps)
  let ?s1 = "if \<not> busy (heap s (snd p)) \<and> length (workers s) > minWorkers s
           \<and> now - lastActivity (heap s (snd p)) > idleTimeout s
        then s\<lparr>terminated := terminated s @ [snd p],
               workers := AList.delete (fst p) (workers s)\<rparr>
        else s"
  have "set (workers ?s1) \<subseteq> set (workers s)" by (auto simp: set_delete)
  with Cons.IH[of ?s1] show ?case by auto
qed

lemma cleanup_loop_min:
  "distinct (map fst (workers s)) \<Longrightarrow> minWorkers s \<le> length (workers s) \<Longrightarrow>
   minWorkers s \<le> length (workers (cleanup_loop now ps s))"
proof (induction ps arbitrary: s)
  case Nil
  then show ?case by simp
next
  case (Cons p ps)
  let ?s1 = "if \<not> busy (heap s (snd p)) \<and> length (workers s) > minWorkers s
           \<and> now - lastActivity (heap s (snd p)) > idleTimeout s
        then s\<lparr>terminated := terminated s @ [snd p],
               workers := AList.delete (fst p) (workers s)\<rparr>
        else s"
  have d: "distinct (map fst (workers ?s1))"
    using Cons.prems(1) by (simp add: distinct_delete)
  have m: "minWorkers ?s1 \<le> length (workers ?s1)" and e: "minWorkers ?s1 = minWorkers s"
    using Cons.prems length_delete_distinct[of "workers s" "fst p"] by auto
  from Cons.IH[OF d m] e show ?case by simp
qed

lemma cleanup_loop_at_min:
  "length (workers s) \<le> minWorkers s \<Longrightarrow> workers (cleanup_loop now ps s) = workers s"
  by (induction ps arbitrary: s) auto

lemma cleanup_loop_removed:
  assumes "distinct (map fst (workers s))" "set ps \<subseteq> set (workers s)" "distinct (map fst ps)"
    and "q \<in> set (workers s)" "q \<notin> set (workers (cleanup_loop now ps s))"
  shows "\<not> busy (heap s (snd q)) \<and> idleTimeout s < now - lastActivity (heap s (snd q))"
  using assms
proof (induction ps arbitrary: s)
  case Nil
  then show ?case by simp
next
  case (Cons p ps)
  let ?c = "\<not> busy (heap s (snd p)) \<and> length (workers s) > minWorkers s
           \<and> now - lastActivity (heap s (snd p)) > idleTimeout s"
  let ?s1 = "if ?c
        then s\<lparr>terminated := terminated s @ [snd p],
               workers := AList.delete (fst p) (workers s)\<rparr>
        else s"
  have out: "q \<notin> set (workers (cleanup_loop now ps ?s1))"
    using Cons.prems(5) by simp
  have d: "distinct (map fst (workers ?s1))"
    using Cons.prems(1) by (simp add: distinct_delete)
  have sub: "set ps \<subseteq> set (workers ?s1)"
  proof -
    have "fst x \<noteq> fst p" if "x \<in> set ps" for x
      using that Cons.prems(3) by (auto simp: image_iff)
    with Cons.prems(2) show ?thesis by (auto simp: set_delete)
  qed
  have dps: "distinct (map fst ps)" using Cons.prems(3) by simp
  show ?case
  proof (cases "q \<in> set (workers ?s1)")
    case True
    from Cons.IH[OF d sub dps True out] show ?thesis by (simp split: if_splits)
  next
    case False
    with Cons.prems(4) have c: ?c and k: "fst q = fst p"
      by (auto simp: set_delete split: if_splits)
    have "p \<in> set (workers s)" using Cons.prems(2) by simp
    with k Cons.prems(1,4) have "q = p"
      by (metis eq_key_imp_eq_value prod.collapse)
    with c show ?thesis by simp
  qed
qed

lemma cleanup_loop_terminated:
  assumes "distinct (map fst (workers s))" "set ps \<subseteq> set (workers s)" "distinct (map fst ps)"
  shows "set (terminated (cleanup_loop now ps s)) =
         set (terminated s) \<union> snd ` (set (workers s) - set (workers (cleanup_loop now ps s)))"
  using assms
proof (induction ps arbitrary: s)
  case Nil
  then show ?case by simp
next
  case (Cons p ps)
  let ?c = "\<not> busy (heap s (snd p)) \<and> length (workers s) > minWorkers s
           \<and> now - lastActivity (heap s (snd p)) > idleTimeout s"
  define s1 where "s1 = (if ?c
        then s\<lparr>terminated := terminated s @ [snd p],
               workers := AList.delete (fst p) (workers s)\<rparr>
        else s)"
  define s' where "s' = cleanup_loop now ps s1"
  have step: "cleanup_loop now (p # ps) s = s'"
    by (simp add: s'_def s1_def)
  have d: "distinct (map fst (workers s1))"
    using Cons.prems(1) by (simp add: s1_def distinct_delete)
  have sub: "set ps \<subseteq> set (workers s1)"
  proof -
    have "fst x \<noteq> fst p" if "x \<in> set ps" for x
      using that Cons.prems(3) by (auto simp: image_iff)
    with Cons.prems(2) show ?thesis by (auto simp: s1_def set_delete)
  qed
  have dps: "distinct (map fst ps)" using Cons.prems(3) by simp
  have IH: "set (terminated s') = set (terminated s1) \<union> snd ` (set (workers s1) - set (workers s'))"
    unfolding s'_def by (rule Cons.IH[OF d sub dps])
  have fin: "set (workers s') \<subseteq> set (workers s1)"
    unfolding s'_def by (rule cleanup_loop_subset)
  have pin: "p \<in> set (workers s)" using Cons.prems(2) by simp
  show ?case
  proof (cases ?c)
    case False
    then have "s1 = s" unfolding s1_def by (simp only: if_False)
    with IH show ?thesis unfolding step by simp
  next
    case True
    have same: "x = p" if "fst x = fst p" "x \<in> set (workers s)" for x
      using that pin Cons.prems(1) by (metis eq_key_imp_eq_value prod.collapse)
    have w1: "set (workers s1) = set (workers s) - {p}"
      using True same by (auto simp: s1_def set_delete)
    have w2: "set (workers s) - set (workers s') = insert p (set (workers s1) - set (workers s'))"
      using fin pin unfolding w1 by auto
    have t1: "set (terminated s1) = insert (snd p) (set (terminated s))"
      using True by (simp add: s1_def)
    show ?thesis unfolding step IH t1 w2 by auto
  qed
qed

lemma set_update_subset: "set (AList.update k v al) \<subseteq> insert (k, v) (set al)"
  by (induction al) auto

lemma rejectCurrentTask_frame:
  "workers (rejectCurrentTask a err s) = workers s"
  "terminated (rejectCurrentTask a err s) = terminated s"
  "isShuttingDown (rejectCurrentTask a err s) = isShuttingDown s"
  "minWorkers (rejectCurrentTask a err s) = minWorkers s"
  "nextAddr (rejectCurrentTask a err s) = nextAddr s"
  "heap (rejectCurrentTask a err s) = heap s"
  by (simp_all add: rejectCurrentTask_def spliceAndSettle_def split: option.splits)

lemma respawnIfBelowMin_frame:
  "taskQueue (respawnIfBelowMin ids now s) = taskQueue s"
  "settled (respawnIfBelowMin ids now s) = settled s"
  "terminated (respawnIfBelowMin ids now s) = terminated s"
  "isShuttingDown (respawnIfBelowMin ids now s) = isShuttingDown s"
  by (simp_all add: respawnIfBelowMin_def snd_spawnWorker)

lemma splice1_filter:
  "distinct (map f q) \<Longrightarrow> findIndex (\<lambda>t. f t = k) q = Some i \<Longrightarrow>
   splice1 i q = filter (\<lambda>t. f t \<noteq> k) q"
proof (induction q arbitrary: i)
  case Nil
  then show ?case by simp
next
  case (Cons x xs)
  show ?case
  proof (cases "f x = k")
    case True
    with Cons.prems have "i = 0" and "\<forall>y\<in>set xs. f y \<noteq> k" by (auto simp: image_iff)
    with True show ?thesis by simp
  next
    case False
    with Cons.prems obtain j where j: "findIndex (\<lambda>t. f t = k) xs = Some j" "i = Suc j" by auto
    from Cons.IH[OF _ j(1)] Cons.prems(1) False j(2) show ?thesis by simp
  qed
qed

lemma findIndex_nth:
  assumes "distinct (map f q)" "t \<in> set q" "findIndex (\<lambda>x. f x = f t) q = Some i"
  shows "q ! i = t"
proof -
  from findIndex_Some[OF assms(3)] have "i < length q" "f (q ! i) = f t" by simp_all
  moreover have "inj_on f (set q)" using assms(1) by (simp add: distinct_map)
  ultimately show ?thesis using assms(2) by (auto dest: inj_onD)
qed

lemma handleWorkerMessage_unknown_task:
  assumes "\<forall>t\<in>set (taskQueue s). task_id t \<noteq> res_taskId result"
  shows "taskQueue (handleWorkerMessage ids workerId result now s) = taskQueue s \<and>
         settled (handleWorkerMessage ids workerId result now s) = settled s"
proof -
  have "findIndex (\<lambda>t. task_id t = res_taskId result) (taskQueue s) = None"
    using assms by (simp add: findIndex_None)
  then show ?thesis
    by (simp add: handleWorkerMessage_def Let_def split: option.splits)
qed

lemma getAvailableWorker_spawn: "getAvailableWorker (snd (spawnWorker ids now s)) \<noteq> None"
proof -
  let ?s' = "snd (spawnWorker ids now s)"
  have "(ids (nextAddr s), nextAddr s) \<in> set (workers ?s')"
    by (simp add: snd_spawnWorker in_set_update)
  moreover have "\<not> busy (heap ?s' (snd (ids (nextAddr s), nextAddr s)))"
    by (simp add: snd_spawnWorker)
  ultimately have "find (\<lambda>p. \<not> busy (heap ?s' (snd p))) (workers ?s') \<noteq> None"
    unfolding find_None_iff by blast
  then show ?thesis by (simp add: getAvailableWorker_def)
qed

lemma dispatch_posted:
  "\<exists>k\<le>length ts.
     map snd (posted (dispatch ids now ts s)) = map snd (posted s) @ map message_of (take k ts) \<and>
     (k < length ts \<longrightarrow>
        getAvailableWorker (dispatch ids now ts s) = None \<and>
        \<not> length (workers (dispatch ids now ts s)) < maxWorkers s)"
proof (induction ts arbitrary: s)
  case Nil
  then show ?case by simp
next
  case (Cons task rest)
  define s1 where "s1 = (if getAvailableWorker s = None \<and> length (workers s) < maxWorkers s
                then snd (spawnWorker ids now s) else s)"
  have p1: "posted s1 = posted s" and m1: "maxWorkers s1 = maxWorkers s"
    by (simp_all add: s1_def snd_spawnWorker)
  show ?case
  proof (cases "getAvailableWorker s1")
    case None
    have guard: "\<not> (getAvailableWorker s = None \<and> length (workers s) < maxWorkers s)"
    proof
      assume "getAvailableWorker s = None \<and> length (workers s) < maxWorkers s"
      then have "s1 = snd (spawnWorker ids now s)" by (simp add: s1_def)
      with None getAvailableWorker_spawn[of ids now s] show False by simp
    qed
    then have nospawn: "s1 = s" unfolding s1_def by (simp only: if_False)
    with None guard have "\<not> length (workers s) < maxWorkers s"
      by simp
    with None nospawn have
      "map snd (posted (dispatch ids now (task # rest) s)) =
         map snd (posted s) @ map message_of (take 0 (task # rest)) \<and>
       (0 < length (task # rest) \<longrightarrow>
          getAvailableWorker (dispatch ids now (task # rest) s) = None \<and>
          \<not> length (workers (dispatch ids now (task # rest) s)) < maxWorkers s)"
      by (simp add: Let_def s1_def[symmetric])
    then show ?thesis by blast
  next
    case (Some a)
    define s2 where "s2 = assignTask a task now s1"
    have d: "dispatch ids now (task # rest) s = dispatch ids now rest s2"
      using Some by (simp add: Let_def s1_def[symmetric] s2_def)
    have p2: "map snd (posted s2) = map snd (posted s) @ [message_of task]"
      and m2: "maxWorkers s2 = maxWorkers s"
      by (simp_all add: s2_def assignTask_def p1 m1)
    from Cons.IH[of s2] obtain k where k: "k \<le> length rest"
      "map snd (posted (dispatch ids now rest s2)) = map snd (posted s2) @ map message_of (take k rest)"
      "k < length rest \<longrightarrow>
        getAvailableWorker (dispatch ids now rest s2) = None \<and>
        \<not> length (workers (dispatch ids now rest s2)) < maxWorkers s2"
      by blast
    have "Suc k \<le> length (task # rest) \<and>
      map snd (posted (dispatch ids now (task # rest) s)) =
         map snd (posted s) @ map message_of (take (Suc k) (task # rest)) \<and>
       (Suc k < length (task # rest) \<longrightarrow>
          getAvailableWorker (dispatch ids now (task # rest) s) = None \<and>
          \<not> length (workers (dispatch ids now (task # rest) s)) < maxWorkers s)"
      unfolding d using k by (simp add: p2 m2)
    then show ?thesis by blast
  qed
qed

lemma sorted_wrt_conj:
  "sorted_wrt P xs \<Longrightarrow> sorted_wrt Q xs \<Longrightarrow> sorted_wrt (\<lambda>a b. P a b \<and> Q a b) xs"
  by (induction xs) auto

lemma sort_by_priority:
  assumes "fifo_order q"
  shows "sorted_wrt dispatch_before (sort_key (\<lambda>t. - prio t) q)"
proof -
  have "sorted (map (\<lambda>t. - prio t) (sort_key (\<lambda>t. - prio t) q))"
    by (rule sorted_sort_key)
  then have desc: "sorted_wrt (\<lambda>a b. prio b \<le> prio a) (sort_key (\<lambda>t. - prio t) q)"
    by (simp add: sorted_wrt_map)
  have "fifo_order (sort_key (\<lambda>t. - prio t) q)"
    by (rule fifo_order_sort[OF assms])
  then have "sorted_wrt (\<lambda>a b. prio b \<le> prio a \<and> (prio a = prio b \<longrightarrow> task_future a < task_future b))
               (sort_key (\<lambda>t. - prio t) q)"
    unfolding fifo_order_def using desc by (rule sorted_wrt_conj[rotated])
  then show ?thesis
    by (rule sorted_wrt_mono_rel[rotated]) (auto simp: dispatch_before_def)
qed

lemma assigned_queue_irrelevant: "assigned (s\<lparr>taskQueue := q\<rparr>) t = assigned s t"
  by (simp add: assigned_def)






lemma getStats_queuedTasks:
  "queuedTasks (getStats s) = length (filter (assigned s) (taskQueue s)) + length (pendingTasks s)"
  by (simp add: getStats_def Let_def pendingTasks_def sum_length_filter_compl)





lemma shutdownWait_is_run:
  "shutdownWait ids deadline polls s = Some (now1, s1) \<Longrightarrow> \<exists>evs. s1 = run ids evs s"
proof (induction polls arbitrary: s)
  case Nil
  then show ?case by simp
next
  case (Cons p polls)
  obtain now evs where p: "p = (now, evs)" by (cases p)
  show ?case
  proof (cases "taskQueue s \<noteq> [] \<and> now < deadline")
    case True
    with Cons.prems p have "shutdownWait ids deadline polls (run ids evs s) = Some (now1, s1)"
      by simp
    from Cons.IH[OF this] obtain evs' where "s1 = run ids evs' (run ids evs s)" by blast
    then have "s1 = run ids (evs @ evs') s" by (simp add: run_append)
    then show ?thesis by blast
  next
    case False
    with Cons.prems p have "s1 = run ids [] s" by auto
    then show ?thesis by blast
  qed
qed

lemma shutdown_is_run:
  assumes "shutdown ids timeout started polls evs s = Some s'"
  shows "\<exists>evs'. s' = run ids evs' s"
proof -
  from assms obtain now1 s1
    where w: "shutdownWait ids (started + (case timeout of None \<Rightarrow> 10000 | Some t \<Rightarrow> t)) polls
                (shutdownBegin s) = Some (now1, s1)"
    and s': "s' = shutdownClear (run ids evs (shutdownRejectRemaining s1))"
    by (auto simp: shutdown_def Let_def split: option.splits)
  from shutdownWait_is_run[OF w] obtain evsW where "s1 = run ids evsW (shutdownBegin s)" by blast
  then have "s' = run ids ([ShutdownBegin] @ evsW @ [ShutdownRejectRemaining] @ evs @ [ShutdownClear]) s"
    unfolding s' by (simp add: run_append)
  then show ?thesis by blast
qed

section \<open>Claims\<close>



text \<open>
  C2.  For a pool whose constructor leaves it with \<open>minWorkers \<le> maxWorkers\<close>, in every
  state reached by any sequence of handler runs (spawn, dispatch, completion, crash, exit,
  timer, idle cleanup, the stages of shutdown), and in the state a call of \<open>shutdown\<close>
  returns in, the statistics satisfy \<open>busyWorkers \<le> totalWorkers \<le> maxWorkers\<close>.  A dispatch
  pass spawns nothing once the live set has reached \<open>maxWorkers\<close>, and the exit handler
  respawns nothing unless the live set has dropped below \<open>minWorkers\<close>.
\<close>

theorem worker_count_bounds:
  assumes "s = run ids evs (constructor cpus options ids started)"
    and "minWorkers (constructor cpus options ids started) \<le> maxWorkers (constructor cpus options ids started)"
  shows "busyWorkers (getStats s) \<le> totalWorkers (getStats s) \<and>
         totalWorkers (getStats s) \<le> maxWorkers s \<and>
         (\<forall>s'. shutdown ids timeout now polls evs' s = Some s' \<longrightarrow>
            busyWorkers (getStats s') \<le> totalWorkers (getStats s') \<and>
            totalWorkers (getStats s') \<le> maxWorkers s') \<and>
         (maxWorkers s \<le> totalWorkers (getStats s) \<longrightarrow>
            nextAddr (processQueue ids now s) = nextAddr s) \<and>
         (minWorkers s \<le> length (AList.delete (ids a) (workers s)) \<longrightarrow>
            nextAddr (onExit ids a now s) = nextAddr s)"
proof -
  have bound: "totalWorkers (getStats t) \<le> maxWorkers t"
    if "t = run ids evs0 (constructor cpus options ids started)" for t evs0
  proof -
    have "pool_inv t"
      unfolding that by (rule reachable_inv)
    moreover have "minWorkers t \<le> maxWorkers t"
      unfolding that using assms(2) by (simp add: run_config)
    ultimately show ?thesis
      by (simp add: pool_inv_def getStats_def Let_def)
  qed
  have 1: "busyWorkers (getStats s) \<le> totalWorkers (getStats s)"
    by (rule getStats_busy_le)
  have 2: "totalWorkers (getStats s) \<le> maxWorkers s"
    by (rule bound[OF assms(1)])
  have 3: "busyWorkers (getStats s') \<le> totalWorkers (getStats s') \<and>
           totalWorkers (getStats s') \<le> maxWorkers s'"
    if "shutdown ids timeout now polls evs' s = Some s'" for s'
  proof -
    from shutdown_is_run[OF that] obtain evs1 where "s' = run ids evs1 s" by blast
    then have "s' = run ids (evs @ evs1) (constructor cpus options ids started)"
      by (simp add: assms(1) run_append)
    from bound[OF this] getStats_busy_le[of s'] show ?thesis by simp
  qed
  have 4: "nextAddr (processQueue ids now s) = nextAddr s" if "maxWorkers s \<le> totalWorkers (getStats s)"
    using that processQueue_full[of s ids now] by (simp add: getStats_def Let_def)
  have 5: "nextAddr (onExit ids a now s) = nextAddr s"
    if "minWorkers s \<le> length (AList.delete (ids a) (workers s))"
    using that by (simp add: onExit_def respawnIfBelowMin_def)
  from 1 2 3 4 5 show ?thesis by blast
qed

theorem worker_count_bounds_witness:
  "minWorkers (demo_pool 1 2) \<le> maxWorkers (demo_pool 1 2) \<and>
   totalWorkers (getStats (run id
       [Execute ''resize'' ''a'' None ''1-a'' 1, Execute ''resize'' ''b'' None ''1-b'' 1,
        Execute ''resize'' ''c'' None ''1-c'' 1, ErrorEvent 0 (Error ''boom'') 2]
       (demo_pool 1 2))) = 2 \<and>
   busyWorkers (getStats (run id
       [Execute ''resize'' ''a'' None ''1-a'' 1, Execute ''resize'' ''b'' None ''1-b'' 1,
        Execute ''resize'' ''c'' None ''1-c'' 1, ErrorEvent 0 (Error ''boom'') 2]
       (demo_pool 1 2))) = 2 \<and>
   maxWorkers (run id
       [Execute ''resize'' ''a'' None ''1-a'' 1, Execute ''resize'' ''b'' None ''1-b'' 1,
        Execute ''resize'' ''c'' None ''1-c'' 1, ErrorEvent 0 (Error ''boom'') 2]
       (demo_pool 1 2)) = 2 \<and>
   nextAddr (processQueue id 3 (run id
       [Execute ''resize'' ''a'' None ''1-a'' 1, Execute ''resize'' ''b'' None ''1-b'' 1,
        Execute ''resize'' ''c'' None ''1-c'' 1, ErrorEvent 0 (Error ''boom'') 2]
       (demo_pool 1 2))) = 3 \<and>
   nextAddr (onExit id 1 3 (run id
       [Execute ''resize'' ''a'' None ''1-a'' 1, Execute ''resize'' ''b'' None ''1-b'' 1,
        Execute ''resize'' ''c'' None ''1-c'' 1, ErrorEvent 0 (Error ''boom'') 2]
       (demo_pool 1 2))) = 3"
proof -
  let ?evs = "[Execute ''resize'' ''a'' None ''1-a'' 1, Execute ''resize'' ''b'' None ''1-b'' 1,
        Execute ''resize'' ''c'' None ''1-c'' 1, ErrorEvent 0 (Error ''boom'') 2]"
  let ?s = "run id ?evs (demo_pool 1 2)"
  have h: "minWorkers (demo_pool 1 2) \<le> maxWorkers (demo_pool 1 2)" by code_simp
  have t: "totalWorkers (getStats ?s) = 2" by code_simp
  have b: "busyWorkers (getStats ?s) = 2" by code_simp
  have m: "maxWorkers ?s = 2" by code_simp
  have n: "nextAddr ?s = 3" by code_simp
  have d: "minWorkers ?s \<le> length (AList.delete (id 1) (workers ?s))" by code_simp
  have s: "?s = run id ?evs (constructor 4 \<lparr>opt_workerScript = ''general.worker'',
              opt_maxWorkers = Some 2, opt_minWorkers = Some 1, opt_idleTimeout = None,
              opt_taskTimeout = None\<rparr> id 0)"
    by (simp only: demo_pool_def)
  note th = worker_count_bounds[OF s h[unfolded demo_pool_def], where now = 3 and a = 1]
  from th t m have 1: "nextAddr (processQueue id 3 ?s) = nextAddr ?s" by simp
  from th d have 2: "nextAddr (onExit id 1 3 ?s) = nextAddr ?s" by blast
  from h t b m 1 2 n show ?thesis by simp
qed

text \<open>
  C3.  Once the \<open>isShuttingDown\<close> flag is set, after any further handler runs, a call of
  \<open>execute\<close> is rejected at once with the error "Worker pool is shutting down" and returns
  the pool state it was given: the queue, the worker map and every other field are
  unchanged.
\<close>

theorem execute_after_shutdown:
  assumes "isShuttingDown s"
  shows "execute ids ty dat options tid now (run ids evs s)
           = (Inl (Error ''Worker pool is shutting down''), run ids evs s)"
proof -
  from run_shutting[OF assms, of ids evs] have "isShuttingDown (run ids evs s)" by simp
  then show ?thesis by (simp add: execute_def)
qed

theorem execute_after_shutdown_witness:
  "isShuttingDown (shutdownBegin (demo_pool 2 4)) \<and>
   fst (execute id ''hash'' ''x'' None ''1-a'' 5
          (run id [Message 0 (demo_success ''0-z'') 3, ExitEvent 1 4] (shutdownBegin (demo_pool 2 4))))
     = Inl (Error ''Worker pool is shutting down'') \<and>
   snd (execute id ''hash'' ''x'' None ''1-a'' 5
          (run id [Message 0 (demo_success ''0-z'') 3, ExitEvent 1 4] (shutdownBegin (demo_pool 2 4))))
     = run id [Message 0 (demo_success ''0-z'') 3, ExitEvent 1 4] (shutdownBegin (demo_pool 2 4))"
proof -
  have h: "isShuttingDown (shutdownBegin (demo_pool 2 4))"
    by (simp add: shutdownBegin_def)
  from execute_after_shutdown[OF h, of id "''hash''" "''x''" None "''1-a''" 5
      "[Message 0 (demo_success ''0-z'') 3, ExitEvent 1 4]"] h
  show ?thesis by (simp del: run_Cons)
qed

text \<open>
  C4.  A dispatch pass (\<open>processQueue\<close> on a pool that is not shutting down) whose queue
  holds tasks of equal priority in submission order, as the queue of every reachable state
  does (last conjunct).  The list \<open>pend\<close> the pass works through is the pending, unassigned
  tasks, ordered by priority descending (a missing priority counting as 0) and, within a
  priority, by submission.  The messages the pass posts are those of the first \<open>k\<close> tasks
  of \<open>pend\<close>, in that order; if it stops before the end of \<open>pend\<close>, then no worker is
  idle and the pool is at \<open>maxWorkers\<close>.  Every task, dispatched or not, is still in the
  queue, and the queue is again in submission order within each priority.
\<close>

theorem dispatch_order:
  assumes fifo: "fifo_order (taskQueue s)"
    and running: "\<not> isShuttingDown s"
    and s': "s' = processQueue ids now s"
    and pend: "pend = filter (\<lambda>t. \<not> assigned s t) (sort_key (\<lambda>t. - prio t) (taskQueue s))"
  shows "sorted_wrt dispatch_before pend \<and>
         mset pend = mset (pendingTasks s) \<and>
         (\<exists>k\<le>length pend.
            map snd (posted s') = map snd (posted s) @ map message_of (take k pend) \<and>
            (k < length pend \<longrightarrow>
               getAvailableWorker s' = None \<and> \<not> length (workers s') < maxWorkers s')) \<and>
         mset (taskQueue s') = mset (taskQueue s) \<and>
         fifo_order (taskQueue s') \<and>
         fifo_order (taskQueue (run ids evs (constructor cpus options ids started)))"
proof -
  have 1: "sorted_wrt dispatch_before pend"
    unfolding pend by (rule sorted_wrt_filter[OF sort_by_priority[OF fifo]])
  have 2: "mset pend = mset (pendingTasks s)"
    by (simp add: pend pendingTasks_def)
  define s1 where "s1 = s\<lparr>taskQueue := sort_key (\<lambda>t. - prio t) (taskQueue s)\<rparr>"
  have pend1: "pendingTasks s1 = pend"
    by (simp add: pendingTasks_def s1_def pend assigned_queue_irrelevant)
  have 3: "\<exists>k\<le>length pend.
            map snd (posted s') = map snd (posted s) @ map message_of (take k pend) \<and>
            (k < length pend \<longrightarrow>
               getAvailableWorker s' = None \<and> \<not> length (workers s') < maxWorkers s')"
  proof (cases "taskQueue s = []")
    case True
    then have "pend = []" "s' = s" by (simp_all add: pend s' processQueue_def)
    then show ?thesis by simp
  next
    case False
    with running have d: "s' = dispatch ids now pend s1"
      by (simp add: s' processQueue_def Let_def s1_def[symmetric] pend1)
    from dispatch_posted[of pend ids now s1] obtain k where k: "k \<le> length pend"
      "map snd (posted s') = map snd (posted s1) @ map message_of (take k pend)"
      "k < length pend \<longrightarrow> getAvailableWorker s' = None \<and> \<not> length (workers s') < maxWorkers s1"
      unfolding d by blast
    have "map snd (posted s') = map snd (posted s) @ map message_of (take k pend)"
      unfolding k(2) by (simp add: s1_def)
    moreover have "maxWorkers s' = maxWorkers s1" by (simp add: d dispatch_frame)
    ultimately show ?thesis using k(1,3) by auto
  qed
  have 4: "mset (taskQueue s') = mset (taskQueue s)"
    unfolding s' by (rule processQueue_mset)
  have 5: "fifo_order (taskQueue s')"
    using fifo running by (simp add: s' processQueue_queue fifo_order_sort)
  have 6: "fifo_order (taskQueue (run ids evs (constructor cpus options ids started)))"
    using reachable_inv[of ids evs cpus options started] by (simp add: pool_inv_def)
  from 1 2 3 4 5 6 show ?thesis by blast
qed

theorem dispatch_order_witness:
  "fifo_order (taskQueue (run id [Execute ''hash'' ''x'' None ''1-x'' 1, Execute ''hash'' ''a'' (Some \<lparr>opt_timeout = None, opt_priority = Some 1\<rparr>) ''1-a'' 2, Execute ''hash'' ''b'' (Some \<lparr>opt_timeout = None, opt_priority = Some 5\<rparr>) ''1-b'' 3, TimerFires 0] (demo_pool 1 1))) \<and> \<not> isShuttingDown (run id [Execute ''hash'' ''x'' None ''1-x'' 1, Execute ''hash'' ''a'' (Some \<lparr>opt_timeout = None, opt_priority = Some 1\<rparr>) ''1-a'' 2, Execute ''hash'' ''b'' (Some \<lparr>opt_timeout = None, opt_priority = Some 5\<rparr>) ''1-b'' 3, TimerFires 0] (demo_pool 1 1)) \<and>
   map task_id (filter (\<lambda>t. \<not> assigned (run id [Execute ''hash'' ''x'' None ''1-x'' 1, Execute ''hash'' ''a'' (Some \<lparr>opt_timeout = None, opt_priority = Some 1\<rparr>) ''1-a'' 2, Execute ''hash'' ''b'' (Some \<lparr>opt_timeout = None, opt_priority = Some 5\<rparr>) ''1-b'' 3, TimerFires 0] (demo_pool 1 1)) t) (sort_key (\<lambda>t. - prio t) (taskQueue (run id [Execute ''hash'' ''x'' None ''1-x'' 1, Execute ''hash'' ''a'' (Some \<lparr>opt_timeout = None, opt_priority = Some 1\<rparr>) ''1-a'' 2, Execute ''hash'' ''b'' (Some \<lparr>opt_timeout = None, opt_priority = Some 5\<rparr>) ''1-b'' 3, TimerFires 0] (demo_pool 1 1)))))
     = [''1-b'', ''1-a''] \<and>
   sorted_wrt dispatch_before
     (filter (\<lambda>t. \<not> assigned (run id [Execute ''hash'' ''x'' None ''1-x'' 1, Execute ''hash'' ''a'' (Some \<lparr>opt_timeout = None, opt_priority = Some 1\<rparr>) ''1-a'' 2, Execute ''hash'' ''b'' (Some \<lparr>opt_timeout = None, opt_priority = Some 5\<rparr>) ''1-b'' 3, TimerFires 0] (demo_pool 1 1)) t) (sort_key (\<lambda>t. - prio t) (taskQueue (run id [Execute ''hash'' ''x'' None ''1-x'' 1, Execute ''hash'' ''a'' (Some \<lparr>opt_timeout = None, opt_priority = Some 1\<rparr>) ''1-a'' 2, Execute ''hash'' ''b'' (Some \<lparr>opt_timeout = None, opt_priority = Some 5\<rparr>) ''1-b'' 3, TimerFires 0] (demo_pool 1 1))))) \<and>
   map (msg_taskId \<circ> snd) (posted (run id [Execute ''hash'' ''x'' None ''1-x'' 1, Execute ''hash'' ''a'' (Some \<lparr>opt_timeout = None, opt_priority = Some 1\<rparr>) ''1-a'' 2, Execute ''hash'' ''b'' (Some \<lparr>opt_timeout = None, opt_priority = Some 5\<rparr>) ''1-b'' 3, TimerFires 0] (demo_pool 1 1))) = [''1-x''] \<and>
   map (msg_taskId \<circ> snd) (posted (processQueue id 9 (run id [Execute ''hash'' ''x'' None ''1-x'' 1, Execute ''hash'' ''a'' (Some \<lparr>opt_timeout = None, opt_priority = Some 1\<rparr>) ''1-a'' 2, Execute ''hash'' ''b'' (Some \<lparr>opt_timeout = None, opt_priority = Some 5\<rparr>) ''1-b'' 3, TimerFires 0] (demo_pool 1 1)))) = [''1-x'', ''1-b''] \<and>
   mset (taskQueue (processQueue id 9 (run id [Execute ''hash'' ''x'' None ''1-x'' 1, Execute ''hash'' ''a'' (Some \<lparr>opt_timeout = None, opt_priority = Some 1\<rparr>) ''1-a'' 2, Execute ''hash'' ''b'' (Some \<lparr>opt_timeout = None, opt_priority = Some 5\<rparr>) ''1-b'' 3, TimerFires 0] (demo_pool 1 1)))) = mset (taskQueue (run id [Execute ''hash'' ''x'' None ''1-x'' 1, Execute ''hash'' ''a'' (Some \<lparr>opt_timeout = None, opt_priority = Some 1\<rparr>) ''1-a'' 2, Execute ''hash'' ''b'' (Some \<lparr>opt_timeout = None, opt_priority = Some 5\<rparr>) ''1-b'' 3, TimerFires 0] (demo_pool 1 1)))"
proof -
  let ?s = "(run id [Execute ''hash'' ''x'' None ''1-x'' 1, Execute ''hash'' ''a'' (Some \<lparr>opt_timeout = None, opt_priority = Some 1\<rparr>) ''1-a'' 2, Execute ''hash'' ''b'' (Some \<lparr>opt_timeout = None, opt_priority = Some 5\<rparr>) ''1-b'' 3, TimerFires 0] (demo_pool 1 1))"
  let ?pend = "filter (\<lambda>t. \<not> assigned ?s t) (sort_key (\<lambda>t. - prio t) (taskQueue ?s))"
  have fifo: "fifo_order (taskQueue ?s)" by code_simp
  have running: "\<not> isShuttingDown ?s" by code_simp
  have ids: "map task_id ?pend = [''1-b'', ''1-a'']" by code_simp
  have before: "map (msg_taskId \<circ> snd) (posted ?s) = [''1-x'']" by code_simp
  have after: "map (msg_taskId \<circ> snd) (posted (processQueue id 9 ?s)) = [''1-x'', ''1-b'']"
    by code_simp
  from dispatch_order[OF fifo running refl refl]
  have "sorted_wrt dispatch_before ?pend \<and>
        mset (taskQueue (processQueue id 9 ?s)) = mset (taskQueue ?s)"
    by blast
  with fifo running ids before after show ?thesis by blast
qed

text \<open>
  C5, as amended.  The timer callback of a task, run while the current-task field of the
  worker object it was armed for still names that task, on a queue whose task ids are
  distinct: the worker object is reset to idle; if the task is still in the queue it is
  removed and its promise rejected with "Task timeout"; if no task of that id is in the
  queue any more, neither the queue nor any promise is touched; and a result message for
  that task id that arrives afterwards, from any worker, changes neither the queue nor
  the settlements.  The counterexample is the case the claim as written misses: the worker
  crashed first, so the promise was rejected with the worker's error, the worker object
  still names the task when the timer fires, and no "Task timeout" rejection happens.
\<close>

theorem timeout_rejects_queued_task:
  assumes cur: "currentTask (heap s a) = Some (task_id task)"
    and uniq: "distinct (map task_id (taskQueue s))"
    and s': "s' = timeoutCallback a task s"
  shows "\<not> busy (heap s' a) \<and> currentTask (heap s' a) = None \<and>
         (task \<in> set (taskQueue s) \<longrightarrow>
            taskQueue s' = filter (\<lambda>t. task_id t \<noteq> task_id task) (taskQueue s) \<and>
            settled s' = settled s @ [(task_future task, Rejected (Error ''Task timeout''))]) \<and>
         ((\<forall>t\<in>set (taskQueue s). task_id t \<noteq> task_id task) \<longrightarrow>
            taskQueue s' = taskQueue s \<and> settled s' = settled s) \<and>
         (res_taskId result = task_id task \<longrightarrow>
            taskQueue (handleWorkerMessage ids workerId result now s') = taskQueue s' \<and>
            settled (handleWorkerMessage ids workerId result now s') = settled s')"
proof -
  have idle: "\<not> busy (heap s' a)" "currentTask (heap s' a) = None"
    using cur by (simp_all add: s' timeoutCallback_def Let_def)
  have found: "taskQueue s' = filter (\<lambda>t. task_id t \<noteq> task_id task) (taskQueue s) \<and>
               settled s' = settled s @ [(task_future (taskQueue s ! i), Rejected (Error ''Task timeout''))]"
    if i: "findIndex (\<lambda>t. task_id t = task_id task) (taskQueue s) = Some i" for i
    using cur i splice1_filter[OF uniq i]
    by (simp add: s' timeoutCallback_def Let_def spliceAndSettle_def)
  have absent: "taskQueue s' = taskQueue s \<and> settled s' = settled s"
    if "findIndex (\<lambda>t. task_id t = task_id task) (taskQueue s) = None"
    using cur that by (simp add: s' timeoutCallback_def Let_def)
  have inq: "taskQueue s' = filter (\<lambda>t. task_id t \<noteq> task_id task) (taskQueue s) \<and>
             settled s' = settled s @ [(task_future task, Rejected (Error ''Task timeout''))]"
    if queued: "task \<in> set (taskQueue s)"
  proof -
    from queued obtain i where i: "findIndex (\<lambda>t. task_id t = task_id task) (taskQueue s) = Some i"
      using findIndex_None[of "\<lambda>t. task_id t = task_id task" "taskQueue s"] by fastforce
    have "taskQueue s ! i = task"
      by (rule findIndex_nth[OF uniq queued i])
    with found[OF i] show ?thesis by simp
  qed
  have notq: "taskQueue s' = taskQueue s \<and> settled s' = settled s"
    if "\<forall>t\<in>set (taskQueue s). task_id t \<noteq> task_id task"
    using that absent by (simp add: findIndex_None)
  have none_left: "\<forall>t\<in>set (taskQueue s'). task_id t \<noteq> task_id task"
  proof (cases "findIndex (\<lambda>t. task_id t = task_id task) (taskQueue s)")
    case None
    with absent show ?thesis by (simp add: findIndex_None)
  next
    case (Some i)
    with found show ?thesis by simp
  qed
  have late: "taskQueue (handleWorkerMessage ids workerId result now s') = taskQueue s' \<and>
              settled (handleWorkerMessage ids workerId result now s') = settled s'"
    if "res_taskId result = task_id task"
    by (rule handleWorkerMessage_unknown_task) (simp add: none_left that)
  from idle inq notq late show ?thesis by blast
qed

theorem timeout_rejects_queued_task_witness:
  "currentTask (heap (run id [Execute ''hash'' ''x'' None ''1-a'' 1] (demo_pool 1 1)) 0) = Some (task_id (fst (snd (timers (run id [Execute ''hash'' ''x'' None ''1-a'' 1] (demo_pool 1 1)) ! 0)))) \<and>
   fst (snd (timers (run id [Execute ''hash'' ''x'' None ''1-a'' 1] (demo_pool 1 1)) ! 0)) \<in> set (taskQueue (run id [Execute ''hash'' ''x'' None ''1-a'' 1] (demo_pool 1 1))) \<and>
   distinct (map task_id (taskQueue (run id [Execute ''hash'' ''x'' None ''1-a'' 1] (demo_pool 1 1)))) \<and>
   settled (timeoutCallback 0 (fst (snd (timers (run id [Execute ''hash'' ''x'' None ''1-a'' 1] (demo_pool 1 1)) ! 0))) (run id [Execute ''hash'' ''x'' None ''1-a'' 1] (demo_pool 1 1)))
     = [(0, Rejected (Error ''Task timeout''))] \<and>
   settled (handleWorkerMessage id 0 (demo_success ''1-a'') 9
              (timeoutCallback 0 (fst (snd (timers (run id [Execute ''hash'' ''x'' None ''1-a'' 1] (demo_pool 1 1)) ! 0))) (run id [Execute ''hash'' ''x'' None ''1-a'' 1] (demo_pool 1 1))))
     = [(0, Rejected (Error ''Task timeout''))] \<and>
   currentTask (heap (run id [Execute ''hash'' ''x'' None ''1-a'' 1, ErrorEvent 0 (Error ''boom'') 2] (demo_pool 1 1)) 0) = Some (task_id (fst (snd (timers (run id [Execute ''hash'' ''x'' None ''1-a'' 1, ErrorEvent 0 (Error ''boom'') 2] (demo_pool 1 1)) ! 0)))) \<and>
   taskQueue (run id [Execute ''hash'' ''x'' None ''1-a'' 1, ErrorEvent 0 (Error ''boom'') 2] (demo_pool 1 1)) = [] \<and>
   settled (timeoutCallback 0 (fst (snd (timers (run id [Execute ''hash'' ''x'' None ''1-a'' 1, ErrorEvent 0 (Error ''boom'') 2] (demo_pool 1 1)) ! 0))) (run id [Execute ''hash'' ''x'' None ''1-a'' 1, ErrorEvent 0 (Error ''boom'') 2] (demo_pool 1 1))) = settled (run id [Execute ''hash'' ''x'' None ''1-a'' 1, ErrorEvent 0 (Error ''boom'') 2] (demo_pool 1 1))"
proof -
  let ?s = "(run id [Execute ''hash'' ''x'' None ''1-a'' 1] (demo_pool 1 1))"
  let ?task = "fst (snd (timers ?s ! 0))"
  have cur: "currentTask (heap ?s 0) = Some (task_id ?task)" by code_simp
  have queued: "?task \<in> set (taskQueue ?s)" by code_simp
  have uniq: "distinct (map task_id (taskQueue ?s))" by code_simp
  have old: "settled ?s = []" by code_simp
  have fut: "task_future ?task = 0" by code_simp
  have res: "res_taskId (demo_success ''1-a'') = task_id ?task" by code_simp
  note th = timeout_rejects_queued_task[OF cur uniq refl,
      where result = "demo_success ''1-a''" and ids = id and workerId = 0 and now = 9]
  from th old fut queued
  have a: "settled (timeoutCallback 0 ?task ?s) = [(0, Rejected (Error ''Task timeout''))]"
    by simp
  from th res
  have "settled (handleWorkerMessage id 0 (demo_success ''1-a'') 9 (timeoutCallback 0 ?task ?s))
          = settled (timeoutCallback 0 ?task ?s)"
    by blast
  with a have b: "settled (handleWorkerMessage id 0 (demo_success ''1-a'') 9
      (timeoutCallback 0 ?task ?s)) = [(0, Rejected (Error ''Task timeout''))]"
    by simp
  let ?c = "(run id [Execute ''hash'' ''x'' None ''1-a'' 1, ErrorEvent 0 (Error ''boom'') 2] (demo_pool 1 1))"
  let ?ctask = "fst (snd (timers ?c ! 0))"
  have ccur: "currentTask (heap ?c 0) = Some (task_id ?ctask)" by code_simp
  have cq: "taskQueue ?c = []" by code_simp
  have cuniq: "distinct (map task_id (taskQueue ?c))" by (simp only: cq) simp
  have cnone: "\<forall>t\<in>set (taskQueue ?c). task_id t \<noteq> task_id ?ctask" by (simp only: cq) simp
  from timeout_rejects_queued_task[OF ccur cuniq refl] cnone
  have c: "settled (timeoutCallback 0 ?ctask ?c) = settled ?c"
    by blast
  from cur queued uniq a b ccur cq c show ?thesis by blast
qed

theorem timeout_after_crash_counterexample:
  "fst (timers (run id [Execute ''hash'' ''x'' None ''1-a'' 1, ErrorEvent 0 (Error ''boom'') 2]
                  (demo_pool 1 1)) ! 0) = 0 \<and>
   currentTask (heap (run id [Execute ''hash'' ''x'' None ''1-a'' 1, ErrorEvent 0 (Error ''boom'') 2]
                        (demo_pool 1 1)) 0)
     = Some (task_id (fst (snd (timers (run id [Execute ''hash'' ''x'' None ''1-a'' 1,
                 ErrorEvent 0 (Error ''boom'') 2] (demo_pool 1 1)) ! 0)))) \<and>
   task_future (fst (snd (timers (run id [Execute ''hash'' ''x'' None ''1-a'' 1,
                 ErrorEvent 0 (Error ''boom'') 2] (demo_pool 1 1)) ! 0))) = 0 \<and>
   settled (run id [Execute ''hash'' ''x'' None ''1-a'' 1, ErrorEvent 0 (Error ''boom'') 2,
                    TimerFires 0] (demo_pool 1 1))
     = [(0, Rejected (Error ''boom''))]"
  by code_simp

text \<open>
  C6.  The error handler of a live worker (the object at address \<open>a\<close>, found in the map
  under its own id).  With \<open>s'\<close> the state reached just before the final call of
  \<open>processQueue\<close>: the handler is that state followed by a dispatch pass; if the worker's
  current task is in the queue it is spliced out and its promise rejected with the
  worker's error, and otherwise neither the queue nor any promise is touched; the worker is
  terminated and its entry is gone from the map; and one replacement is spawned if the pool
  is not shutting down and the map without the worker is smaller than \<open>minWorkers\<close>, none
  otherwise.
\<close>

theorem worker_error_handling:
  assumes live: "map_of (workers s) (ids a) = Some a" and spawned: "a < nextAddr s"
    and s': "s' = replaceWorker ids (ids a) a err now
                    (s\<lparr>heap := (heap s)(a := (heap s a)\<lparr>errors := Suc (errors (heap s a))\<rparr>)\<rparr>)"
  shows "onError ids a err now s = processQueue ids now s' \<and>
         (\<forall>tid i. currentTask (heap s a) = Some tid \<and> tid \<noteq> [] \<and>
                  findIndex (\<lambda>t. task_id t = tid) (taskQueue s) = Some i \<longrightarrow>
            taskQueue s' = splice1 i (taskQueue s) \<and>
            settled s' = settled s @ [(task_future (taskQueue s ! i), Rejected err)]) \<and>
         ((\<forall>tid. currentTask (heap s a) = Some tid \<longrightarrow>
                  tid = [] \<or> findIndex (\<lambda>t. task_id t = tid) (taskQueue s) = None) \<longrightarrow>
            taskQueue s' = taskQueue s \<and> settled s' = settled s) \<and>
         a \<in> set (terminated s') \<and> (ids a, a) \<notin> set (workers s') \<and>
         nextAddr s' =
           (if \<not> isShuttingDown s \<and> length (AList.delete (ids a) (workers s)) < minWorkers s
            then Suc (nextAddr s) else nextAddr s) \<and>
         workers s' =
           (if \<not> isShuttingDown s \<and> length (AList.delete (ids a) (workers s)) < minWorkers s
            then AList.update (ids (nextAddr s)) (nextAddr s) (AList.delete (ids a) (workers s))
            else AList.delete (ids a) (workers s))"
proof -
  define s0 where "s0 = s\<lparr>heap := (heap s)(a := (heap s a)\<lparr>errors := Suc (errors (heap s a))\<rparr>)\<rparr>"
  define s1 where "s1 = rejectCurrentTask a err s0"
  define s2 where "s2 = s1\<lparr>terminated := terminated s1 @ [a],
                            workers := AList.delete (ids a) (workers s1)\<rparr>"
  have s'_eq: "s' = respawnIfBelowMin ids now s2"
    by (simp add: s' replaceWorker_def Let_def s0_def s1_def s2_def)
  have w2: "workers s2 = AList.delete (ids a) (workers s)"
    by (simp add: s2_def s1_def rejectCurrentTask_frame s0_def)
  have f2: "isShuttingDown s2 = isShuttingDown s" "minWorkers s2 = minWorkers s"
    "nextAddr s2 = nextAddr s"
    by (simp_all add: s2_def s1_def rejectCurrentTask_frame s0_def)
  have 1: "onError ids a err now s = processQueue ids now s'"
    using live by (simp add: onError_def handleWorkerError_def s')
  have q': "taskQueue s' = taskQueue s1" "settled s' = settled s1"
    by (simp_all add: s'_eq respawnIfBelowMin_frame s2_def)
  have cur: "currentTask (heap s0 a) = currentTask (heap s a)" "taskQueue s0 = taskQueue s"
    "settled s0 = settled s"
    by (simp_all add: s0_def)
  have 2: "taskQueue s' = splice1 i (taskQueue s) \<and>
           settled s' = settled s @ [(task_future (taskQueue s ! i), Rejected err)]"
    if "currentTask (heap s a) = Some tid \<and> tid \<noteq> [] \<and>
        findIndex (\<lambda>t. task_id t = tid) (taskQueue s) = Some i" for tid i
    using that cur by (simp add: q' s1_def rejectCurrentTask_def spliceAndSettle_def)
  have 3: "taskQueue s' = taskQueue s \<and> settled s' = settled s"
    if "\<forall>tid. currentTask (heap s a) = Some tid \<longrightarrow>
              tid = [] \<or> findIndex (\<lambda>t. task_id t = tid) (taskQueue s) = None"
    using that cur by (auto simp: q' s1_def rejectCurrentTask_def split: option.splits)
  have 4: "a \<in> set (terminated s')"
    by (simp add: s'_eq respawnIfBelowMin_frame s2_def)
  have 6: "nextAddr s' =
           (if \<not> isShuttingDown s \<and> length (AList.delete (ids a) (workers s)) < minWorkers s
            then Suc (nextAddr s) else nextAddr s)"
    by (simp add: s'_eq respawnIfBelowMin_def snd_spawnWorker w2 f2)
  have 7: "workers s' =
           (if \<not> isShuttingDown s \<and> length (AList.delete (ids a) (workers s)) < minWorkers s
            then AList.update (ids (nextAddr s)) (nextAddr s) (AList.delete (ids a) (workers s))
            else AList.delete (ids a) (workers s))"
    by (simp add: s'_eq respawnIfBelowMin_def snd_spawnWorker w2 f2)
  have gone: "(ids a, a) \<notin> set (AList.delete (ids a) (workers s))"
    by (simp add: AList.delete_eq)
  have 5: "(ids a, a) \<notin> set (workers s')"
    using gone spawned
      set_update_subset[of "ids (nextAddr s)" "nextAddr s" "AList.delete (ids a) (workers s)"]
    unfolding 7 by (auto split: if_splits)
  from 1 2 3 4 5 6 7 show ?thesis by blast
qed

theorem worker_error_handling_witness:
  "map_of (workers (run id [Execute ''hash'' ''x'' None ''1-a'' 1] (demo_pool 1 1))) (id 0) = Some 0 \<and> 0 < nextAddr (run id [Execute ''hash'' ''x'' None ''1-a'' 1] (demo_pool 1 1)) \<and>
   currentTask (heap (run id [Execute ''hash'' ''x'' None ''1-a'' 1] (demo_pool 1 1)) 0) = Some ''1-a'' \<and>
   findIndex (\<lambda>t. task_id t = ''1-a'') (taskQueue (run id [Execute ''hash'' ''x'' None ''1-a'' 1] (demo_pool 1 1))) = Some 0 \<and>
   \<not> isShuttingDown (run id [Execute ''hash'' ''x'' None ''1-a'' 1] (demo_pool 1 1)) \<and>
   length (AList.delete (id 0) (workers (run id [Execute ''hash'' ''x'' None ''1-a'' 1] (demo_pool 1 1)))) < minWorkers (run id [Execute ''hash'' ''x'' None ''1-a'' 1] (demo_pool 1 1)) \<and>
   settled (replaceWorker id (id 0) 0 (Error ''boom'') 2 ((run id [Execute ''hash'' ''x'' None ''1-a'' 1] (demo_pool 1 1))\<lparr>heap := (heap (run id [Execute ''hash'' ''x'' None ''1-a'' 1] (demo_pool 1 1)))(0 := (heap (run id [Execute ''hash'' ''x'' None ''1-a'' 1] (demo_pool 1 1)) 0)\<lparr>errors := Suc (errors (heap (run id [Execute ''hash'' ''x'' None ''1-a'' 1] (demo_pool 1 1)) 0))\<rparr>)\<rparr>)) = settled (run id [Execute ''hash'' ''x'' None ''1-a'' 1] (demo_pool 1 1)) @ [(task_future (taskQueue (run id [Execute ''hash'' ''x'' None ''1-a'' 1] (demo_pool 1 1)) ! 0), Rejected (Error ''boom''))] \<and>
   nextAddr (replaceWorker id (id 0) 0 (Error ''boom'') 2 ((run id [Execute ''hash'' ''x'' None ''1-a'' 1] (demo_pool 1 1))\<lparr>heap := (heap (run id [Execute ''hash'' ''x'' None ''1-a'' 1] (demo_pool 1 1)))(0 := (heap (run id [Execute ''hash'' ''x'' None ''1-a'' 1] (demo_pool 1 1)) 0)\<lparr>errors := Suc (errors (heap (run id [Execute ''hash'' ''x'' None ''1-a'' 1] (demo_pool 1 1)) 0))\<rparr>)\<rparr>)) = Suc (nextAddr (run id [Execute ''hash'' ''x'' None ''1-a'' 1] (demo_pool 1 1))) \<and>
   onError id 0 (Error ''boom'') 2 (run id [Execute ''hash'' ''x'' None ''1-a'' 1] (demo_pool 1 1)) = processQueue id 2 (replaceWorker id (id 0) 0 (Error ''boom'') 2 ((run id [Execute ''hash'' ''x'' None ''1-a'' 1] (demo_pool 1 1))\<lparr>heap := (heap (run id [Execute ''hash'' ''x'' None ''1-a'' 1] (demo_pool 1 1)))(0 := (heap (run id [Execute ''hash'' ''x'' None ''1-a'' 1] (demo_pool 1 1)) 0)\<lparr>errors := Suc (errors (heap (run id [Execute ''hash'' ''x'' None ''1-a'' 1] (demo_pool 1 1)) 0))\<rparr>)\<rparr>))"
proof -
  let ?s = "(run id [Execute ''hash'' ''x'' None ''1-a'' 1] (demo_pool 1 1))"
  let ?s' = "(replaceWorker id (id 0) 0 (Error ''boom'') 2 ((run id [Execute ''hash'' ''x'' None ''1-a'' 1] (demo_pool 1 1))\<lparr>heap := (heap (run id [Execute ''hash'' ''x'' None ''1-a'' 1] (demo_pool 1 1)))(0 := (heap (run id [Execute ''hash'' ''x'' None ''1-a'' 1] (demo_pool 1 1)) 0)\<lparr>errors := Suc (errors (heap (run id [Execute ''hash'' ''x'' None ''1-a'' 1] (demo_pool 1 1)) 0))\<rparr>)\<rparr>))"
  have live: "map_of (workers ?s) (id 0) = Some 0" by code_simp
  have spawned: "0 < nextAddr ?s" by code_simp
  have cur: "currentTask (heap ?s 0) = Some ''1-a''" by code_simp
  have idx: "findIndex (\<lambda>t. task_id t = ''1-a'') (taskQueue ?s) = Some 0" by code_simp
  have sh: "\<not> isShuttingDown ?s" by code_simp
  have below: "length (AList.delete (id 0) (workers ?s)) < minWorkers ?s" by code_simp
  have ne: "''1-a'' \<noteq> []" by simp
  note th = worker_error_handling[where ids = id and a = 0 and s = ?s and err = "Error ''boom''"
      and now = 2, OF live spawned refl]
  from th cur idx ne
  have a: "settled ?s' = settled ?s @ [(task_future (taskQueue ?s ! 0), Rejected (Error ''boom''))]"
    by blast
  from th sh below have b: "nextAddr ?s' = Suc (nextAddr ?s)"
    by (simp only: if_True simp_thms)
  from th have c: "onError id 0 (Error ''boom'') 2 ?s = processQueue id 2 ?s'"
    by blast
  from live spawned cur idx sh below a b c show ?thesis by blast
qed

text \<open>
  C7.  One sweep of \<open>cleanupIdleWorkers\<close> at clock reading \<open>now\<close>, on a pool whose worker
  map has distinct keys (as a JavaScript \<open>Map\<close> does, and as every state reached from the
  constructor does: last conjunct): if the pool holds at least
  \<open>minWorkers\<close> workers before the sweep, it does so after it; a pool at or below
  \<open>minWorkers\<close> loses no worker; the sweep only removes entries; the workers it terminates
  are exactly the ones it removes; and every worker it removes was not busy and had its
  last activity more than \<open>idleTimeout\<close> before \<open>now\<close>.
\<close>

theorem cleanup_keeps_minimum:
  assumes "distinct (map fst (workers s))" and "s' = cleanupIdleWorkers now s"
  shows "(minWorkers s \<le> totalWorkers (getStats s) \<longrightarrow> minWorkers s' \<le> totalWorkers (getStats s')) \<and>
         (totalWorkers (getStats s) \<le> minWorkers s \<longrightarrow> workers s' = workers s) \<and>
         set (workers s') \<subseteq> set (workers s) \<and>
         set (terminated s') = set (terminated s) \<union> snd ` (set (workers s) - set (workers s')) \<and>
         (\<forall>p \<in> set (workers s) - set (workers s').
            \<not> busy (heap s (snd p)) \<and> idleTimeout s < now - lastActivity (heap s (snd p))) \<and>
         distinct (map fst (workers (run ids evs (constructor cpus options ids started))))"
proof (intro conjI impI ballI)
  show "distinct (map fst (workers (run ids evs (constructor cpus options ids started))))"
    using reachable_inv[of ids evs cpus options started] by (simp add: pool_inv_def)
  show "minWorkers s' \<le> totalWorkers (getStats s')" if "minWorkers s \<le> totalWorkers (getStats s)"
    using that cleanup_loop_min[OF assms(1), of now "workers s"]
    by (simp add: assms(2) cleanupIdleWorkers_def getStats_def Let_def cleanup_loop_frame)
  show "workers s' = workers s" if "totalWorkers (getStats s) \<le> minWorkers s"
    using that by (simp add: assms(2) cleanupIdleWorkers_def getStats_def Let_def cleanup_loop_at_min)
  show "set (workers s') \<subseteq> set (workers s)"
    unfolding assms(2) cleanupIdleWorkers_def by (rule cleanup_loop_subset)
  have dps: "distinct (map fst (workers s))" by (rule assms(1))
  show "set (terminated s') = set (terminated s) \<union> snd ` (set (workers s) - set (workers s'))"
    unfolding assms(2) cleanupIdleWorkers_def
    by (rule cleanup_loop_terminated[OF assms(1) subset_refl dps])
  show "\<not> busy (heap s (snd p))" "idleTimeout s < now - lastActivity (heap s (snd p))"
    if "p \<in> set (workers s) - set (workers s')" for p
    using that cleanup_loop_removed[OF assms(1) subset_refl dps, of p now]
    by (simp_all add: assms(2) cleanupIdleWorkers_def)
qed

theorem cleanup_keeps_minimum_witness:
  "distinct (map fst (workers (run id
      [Execute ''resize'' ''a'' None ''1-a'' 1, Execute ''resize'' ''b'' None ''1-b'' 1,
       Execute ''resize'' ''c'' None ''1-c'' 1, Message 0 (demo_success ''1-a'') 5,
       Message 1 (demo_success ''1-b'') 6, Message 2 (demo_success ''1-c'') 7] (demo_pool 1 4)))) \<and>
   totalWorkers (getStats (run id
      [Execute ''resize'' ''a'' None ''1-a'' 1, Execute ''resize'' ''b'' None ''1-b'' 1,
       Execute ''resize'' ''c'' None ''1-c'' 1, Message 0 (demo_success ''1-a'') 5,
       Message 1 (demo_success ''1-b'') 6, Message 2 (demo_success ''1-c'') 7] (demo_pool 1 4))) = 3 \<and>
   minWorkers (run id
      [Execute ''resize'' ''a'' None ''1-a'' 1, Execute ''resize'' ''b'' None ''1-b'' 1,
       Execute ''resize'' ''c'' None ''1-c'' 1, Message 0 (demo_success ''1-a'') 5,
       Message 1 (demo_success ''1-b'') 6, Message 2 (demo_success ''1-c'') 7] (demo_pool 1 4)) = 1 \<and>
   minWorkers (cleanupIdleWorkers 40000 (run id
      [Execute ''resize'' ''a'' None ''1-a'' 1, Execute ''resize'' ''b'' None ''1-b'' 1,
       Execute ''resize'' ''c'' None ''1-c'' 1, Message 0 (demo_success ''1-a'') 5,
       Message 1 (demo_success ''1-b'') 6, Message 2 (demo_success ''1-c'') 7] (demo_pool 1 4)))
     \<le> totalWorkers (getStats (cleanupIdleWorkers 40000 (run id
      [Execute ''resize'' ''a'' None ''1-a'' 1, Execute ''resize'' ''b'' None ''1-b'' 1,
       Execute ''resize'' ''c'' None ''1-c'' 1, Message 0 (demo_success ''1-a'') 5,
       Message 1 (demo_success ''1-b'') 6, Message 2 (demo_success ''1-c'') 7] (demo_pool 1 4)))) \<and>
   workers (cleanupIdleWorkers 40000 (run id
      [Execute ''resize'' ''a'' None ''1-a'' 1, Execute ''resize'' ''b'' None ''1-b'' 1,
       Execute ''resize'' ''c'' None ''1-c'' 1, Message 0 (demo_success ''1-a'') 5,
       Message 1 (demo_success ''1-b'') 6, Message 2 (demo_success ''1-c'') 7] (demo_pool 1 4)))
     = [(2, 2)]"
proof -
  let ?s = "run id
      [Execute ''resize'' ''a'' None ''1-a'' 1, Execute ''resize'' ''b'' None ''1-b'' 1,
       Execute ''resize'' ''c'' None ''1-c'' 1, Message 0 (demo_success ''1-a'') 5,
       Message 1 (demo_success ''1-b'') 6, Message 2 (demo_success ''1-c'') 7] (demo_pool 1 4)"
  have d: "distinct (map fst (workers ?s))" by code_simp
  have t: "totalWorkers (getStats ?s) = 3" by code_simp
  have m: "minWorkers ?s = 1" by code_simp
  have w: "workers (cleanupIdleWorkers 40000 ?s) = [(2, 2)]" by code_simp
  from cleanup_keeps_minimum[OF d refl, of 40000] t m
  have "minWorkers (cleanupIdleWorkers 40000 ?s) \<le> totalWorkers (getStats (cleanupIdleWorkers 40000 ?s))"
    by simp
  with d t m w show ?thesis by blast
qed






text \<open>
  C10.  In every state the pool reaches from its constructor, the task of a promise handed
  out by \<open>execute\<close> is in the queue exactly as long as the promise has not been settled.  A
  dispatch pass removes nothing from the queue, so an assigned task stays in it:
  \<open>queuedTasks\<close> of \<open>getStats\<close> is the number of queued tasks that are assigned to a worker plus
  the number of pending ones, and the drain loop of \<open>shutdown\<close> goes on waiting before its
  deadline while an assigned task is in the queue.
\<close>

theorem queue_holds_inflight_tasks:
  assumes "s = run ids evs (constructor cpus options ids started)"
  shows "(\<forall>f. f < nextFuture s \<longrightarrow> (queued s f \<longleftrightarrow> settlements s f = 0)) \<and>
         mset (taskQueue (processQueue ids now s)) = mset (taskQueue s) \<and>
         queuedTasks (getStats s) =
           length (filter (assigned s) (taskQueue s)) + length (pendingTasks s) \<and>
         ((\<exists>t\<in>set (taskQueue s). assigned s t) \<and> now < deadline \<longrightarrow>
            shutdownWait ids deadline ((now, evs') # polls) s =
            shutdownWait ids deadline polls (run ids evs' s))"
proof (intro conjI allI impI)
  fix f
  assume "f < nextFuture s"
  with reachable_inv[of ids evs cpus options started] assms
  have "settlements s f = (if queued s f then 0 else 1)"
    by (simp add: pool_inv_def ledger_settlements)
  then show "queued s f \<longleftrightarrow> settlements s f = 0" by (simp split: if_splits)
next
  show "mset (taskQueue (processQueue ids now s)) = mset (taskQueue s)"
    by (rule processQueue_mset)
  show "queuedTasks (getStats s) =
          length (filter (assigned s) (taskQueue s)) + length (pendingTasks s)"
    by (rule getStats_queuedTasks)
next
  assume "(\<exists>t\<in>set (taskQueue s). assigned s t) \<and> now < deadline"
  then have "taskQueue s \<noteq> [] \<and> now < deadline" by auto
  then show "shutdownWait ids deadline ((now, evs') # polls) s =
             shutdownWait ids deadline polls (run ids evs' s)"
    by simp
qed

theorem queue_holds_inflight_tasks_witness:
  "0 < nextFuture (run id [Execute ''hash'' ''a'' None ''1-a'' 1] (demo_pool 1 1)) \<and>
   queued (run id [Execute ''hash'' ''a'' None ''1-a'' 1] (demo_pool 1 1)) 0 \<and>
   settlements (run id [Execute ''hash'' ''a'' None ''1-a'' 1] (demo_pool 1 1)) 0 = 0 \<and>
   list_ex (assigned (run id [Execute ''hash'' ''a'' None ''1-a'' 1] (demo_pool 1 1)))
     (taskQueue (run id [Execute ''hash'' ''a'' None ''1-a'' 1] (demo_pool 1 1))) \<and>
   pendingTasks (run id [Execute ''hash'' ''a'' None ''1-a'' 1] (demo_pool 1 1)) = [] \<and>
   queuedTasks (getStats (run id [Execute ''hash'' ''a'' None ''1-a'' 1] (demo_pool 1 1))) = 1 \<and>
   shutdownWait id 100 [(10, []), (200, [])]
       (run id [Execute ''hash'' ''a'' None ''1-a'' 1] (demo_pool 1 1))
     = shutdownWait id 100 [(200, [])]
         (run id [] (run id [Execute ''hash'' ''a'' None ''1-a'' 1] (demo_pool 1 1)))"
proof -
  let ?s = "run id [Execute ''hash'' ''a'' None ''1-a'' 1] (demo_pool 1 1)"
  have s: "?s = run id [Execute ''hash'' ''a'' None ''1-a'' 1]
                  (constructor 4 \<lparr>opt_workerScript = ''general.worker'', opt_maxWorkers = Some 1,
                     opt_minWorkers = Some 1, opt_idleTimeout = None, opt_taskTimeout = None\<rparr> id 0)"
    by (simp only: demo_pool_def)
  have h: "0 < nextFuture ?s" by code_simp
  have q: "queued ?s 0" by code_simp
  have a: "list_ex (assigned ?s) (taskQueue ?s)" by code_simp
  have p: "pendingTasks ?s = []" by code_simp
  have n: "length (filter (assigned ?s) (taskQueue ?s)) = 1" by code_simp
  note th = queue_holds_inflight_tasks[OF s, where now = 10 and deadline = 100
      and evs' = "[]" and polls = "[(200, [])]"]
  from th h q have 1: "settlements ?s 0 = 0" by blast
  from th n p have 2: "queuedTasks (getStats ?s) = 1" by simp
  have "(\<exists>t\<in>set (taskQueue ?s). assigned ?s t) \<and> (10::int) < 100"
    using a by (simp add: list_ex_iff)
  with th have 3: "shutdownWait id 100 [(10, []), (200, [])] ?s
                   = shutdownWait id 100 [(200, [])] (run id [] ?s)"
    by blast
  from h q 1 a p 2 3 show ?thesis by blast
qed

end
